theory Spec2Isabelle
  imports Main "HOL-Library.AList"
begin

section \<open>The task table\<close>

text \<open>
  The queue lives in one DynamoDB table. An item is a finite map from attribute names to
  typed attribute values; the programs write the string type \<open>S\<close> and the number type
  \<open>N\<close> only. Every number the programs write is a millisecond timestamp, so \<open>N\<close>
  carries an integer. The table is kept as an association list from the hash key
  \<open>taskId\<close> to the item, in the order in which the keys were first written.
\<close>

datatype attr = S string | N int

type_synonym item = "string \<rightharpoonup> attr"

type_synonym table = "(string \<times> item) list"

text \<open>
  An error object as the handlers read it: \<open>err.code\<close>, absent (\<open>None\<close>) when the
  property is undefined, and the message.
\<close>

record js_error =
  code :: "string option"
  message :: string

text \<open>
  The console. \<open>console.log\<close> writes at level \<open>LOG\<close>, \<open>console.error\<close> at level
  \<open>ERROR\<close>. Of the logged object an entry keeps the \<open>event\<close> name, the \<open>taskId\<close>
  and the \<open>from\<close>/\<open>to\<close> pair; the remaining properties (the task, its age, the
  serialised error) are not kept.
\<close>

datatype level = LOG | ERROR

record log_entry =
  level :: level
  event :: string
  subject :: "string option"
  move :: "(string \<times> string) option"

text \<open>
  What a function of the application can touch outside its own variables: the table,
  the console, and the \<open>PublishCommand\<close>s (topic, message) handed to the SNS client.
\<close>

record world =
  table :: table
  console :: "log_entry list"
  published :: "(string \<times> string) list"

text \<open>The task object that \<open>getPendingTaskBatch\<close> builds from an item.\<close>

record task =
  taskId :: string
  taskStatus :: string
  taskCreated :: int
  taskUpdated :: int

subsection \<open>The store's commands\<close>

text \<open>
  Modelled from the spec: the table service is not part of the repository; its three
  commands are interpreted as the Task Store contract describes them, on the request
  parameters that the source builds.

  The error object with which the client rejects an update whose \<open>ConditionExpression\<close>
  is false belongs to the client library, which is not part of the repository either. It
  is a parameter, \<open>refusal\<close>, of everything that sends an update.
\<close>

definition ValidationException :: js_error where
  "ValidationException = \<lparr>code = Some ''ValidationException'', message = ''Missing the key taskId''\<rparr>"

text \<open>
  \<open>UpdateItemCommand\<close> with \<open>Key {taskId}\<close>, the update expression
  \<open>set taskStatus = :toTaskStatus, taskUpdated = :taskUpdated\<close> and the condition
  \<open>taskStatus = :fromTaskStatus\<close>. The condition is evaluated against the stored item
  and the two attributes are written in the same indivisible step; an absent item has no
  \<open>taskStatus\<close>, so the condition is false for it.
\<close>

definition UpdateItemCommand ::
  "js_error \<Rightarrow> string \<Rightarrow> string \<Rightarrow> string \<Rightarrow> int \<Rightarrow> table \<Rightarrow> js_error + table" where
  "UpdateItemCommand refusal key fromTaskStatus toTaskStatus now tbl =
     (case map_of tbl key of
        None \<Rightarrow> Inl refusal
      | Some it \<Rightarrow>
          if it ''taskStatus'' = Some (S fromTaskStatus)
          then Inr (AList.update key
                 (it(''taskStatus'' \<mapsto> S toTaskStatus, ''taskUpdated'' \<mapsto> N now)) tbl)
          else Inl refusal)"

text \<open>
  \<open>PutItemCommand\<close> with no condition: the item is stored under its key, in place of
  whatever item the key held.
\<close>

definition PutItemCommand :: "item \<Rightarrow> table \<Rightarrow> js_error + table" where
  "PutItemCommand it tbl =
     (case it ''taskId'' of
        Some (S key) \<Rightarrow> Inr (AList.update key it tbl)
      | _ \<Rightarrow> Inl ValidationException)"

text \<open>
  \<open>ddbClient.send\<close>: the environment may fail the request for a reason of its own
  (\<open>fault\<close>), in which case the command does not reach the table.
\<close>

definition send :: "js_error option \<Rightarrow> (table \<Rightarrow> js_error + table) \<Rightarrow> table \<Rightarrow> js_error + table" where
  "send fault command tbl = (case fault of Some err \<Rightarrow> Inl err | None \<Rightarrow> command tbl)"

text \<open>The status and the update time that the table holds for a key.\<close>

definition persistedStatus :: "table \<Rightarrow> string \<Rightarrow> string option" where
  "persistedStatus tbl key =
     (case map_of tbl key of
        None \<Rightarrow> None
      | Some it \<Rightarrow> (case it ''taskStatus'' of Some (S s) \<Rightarrow> Some s | _ \<Rightarrow> None))"

definition persistedUpdated :: "table \<Rightarrow> string \<Rightarrow> int option" where
  "persistedUpdated tbl key =
     (case map_of tbl key of
        None \<Rightarrow> None
      | Some it \<Rightarrow> (case it ''taskUpdated'' of Some (N n) \<Rightarrow> Some n | _ \<Rightarrow> None))"

definition attribute :: "table \<Rightarrow> string \<Rightarrow> string \<Rightarrow> attr option" where
  "attribute tbl key a = (case map_of tbl key of None \<Rightarrow> None | Some it \<Rightarrow> it a)"

section \<open>process\_tasks.js: the conditional transition\<close>

definition logged :: "level \<Rightarrow> string \<Rightarrow> string option \<Rightarrow> (string \<times> string) option \<Rightarrow> log_entry" where
  "logged l e k m = \<lparr>level = l, event = e, subject = k, move = m\<rparr>"

text \<open>
  \<open>transitionTask(task, fromTaskStatus, toTaskStatus)\<close>. \<open>now\<close> is the reading of
  \<open>DateTime.now().toMillis()\<close>, \<open>fault\<close> the environment's choice for the request.
  The request, the table's reaction and the handler that follows the \<open>await\<close> are one
  step. Both branches return; nothing is thrown.
\<close>

definition transitionTask ::
  "js_error \<Rightarrow> int \<Rightarrow> js_error option \<Rightarrow> task \<Rightarrow> string \<Rightarrow> string \<Rightarrow> 'a world_scheme \<Rightarrow>
     bool \<times> 'a world_scheme" where
  "transitionTask refusal now fault task fromTaskStatus toTaskStatus w =
     (case send fault (UpdateItemCommand refusal (taskId task) fromTaskStatus toTaskStatus now)
             (table w) of
        Inr tbl \<Rightarrow>
          (True, w\<lparr>table := tbl,
                   console := console w @
                     [logged LOG ''TRANSITION_TASK'' (Some (taskId task))
                        (Some (fromTaskStatus, toTaskStatus))]\<rparr>)
      | Inl err \<Rightarrow>
          (False, w\<lparr>console := console w @
                     (if code err \<noteq> Some ''ConditionalCheckFailedException''
                      then [logged ERROR ''TRANSITION_TASK_ERROR'' (Some (taskId task)) None]
                      else []) @
                     [logged LOG ''TRANSITION_TASK_FAILED'' (Some (taskId task))
                        (Some (fromTaskStatus, toTaskStatus))]\<rparr>))"

section \<open>create\_tasks.js\<close>

definition ttlAmount :: int where
  "ttlAmount = 1"

text \<open>The length in milliseconds of the \<open>ttlUnit\<close>, \<open>hour\<close>, that \<open>now.plus\<close> adds.\<close>

definition ttlUnit :: int where
  "ttlUnit = 60 * 60 * 1000"

text \<open>
  \<open>createTask(taskId)\<close>; \<open>now\<close> is the reading of \<open>DateTime.now()\<close>. The item is put
  with no condition expression.
\<close>

definition createTask ::
  "int \<Rightarrow> js_error option \<Rightarrow> string \<Rightarrow> 'a world_scheme \<Rightarrow> bool \<times> 'a world_scheme" where
  "createTask now fault key w =
     (let ttl = now + ttlAmount * ttlUnit;
          Item = [''taskId'' \<mapsto> S key,
                  ''taskStatus'' \<mapsto> S ''PENDING'',
                  ''taskCreated'' \<mapsto> N now,
                  ''taskUpdated'' \<mapsto> N now,
                  ''ttl'' \<mapsto> N ttl]
      in case send fault (PutItemCommand Item) (table w) of
           Inr tbl \<Rightarrow>
             (True, w\<lparr>table := tbl,
                      console := console w @ [logged LOG ''CREATE_TASK'' (Some key) None]\<rparr>)
         | Inl err \<Rightarrow>
             (False, w\<lparr>console := console w @
                        [logged ERROR ''CREATE_TASK_ERROR'' (Some key) None]\<rparr>))"

section \<open>process\_tasks.js: selecting a batch\<close>


definition delayBetweenTask :: int where
  "delayBetweenTask = 200"

definition maxActiveTime :: int where
  "maxActiveTime = 59 * 1000"

definition pageLimit :: nat where
  "pageLimit = 10"

definition stringOf :: "attr option \<Rightarrow> string option" where
  "stringOf a = (case a of Some (S s) \<Rightarrow> Some s | _ \<Rightarrow> None)"

definition numberOf :: "attr option \<Rightarrow> int option" where
  "numberOf a = (case a of Some (N n) \<Rightarrow> Some n | _ \<Rightarrow> None)"

text \<open>
  Modelled from the spec: the index \<open>task-status-created-index\<close> is declared in
  template.yaml, which is not among the sources. As the spec and the README describe it,
  its hash key is \<open>taskStatus\<close> and its range key is \<open>taskCreated\<close>; an item is in the
  index when it has both keys, a string and a number. A query for one status with
  \<open>ScanIndexForward: false\<close> and \<open>Limit\<close> reads the items of that status from the
  greatest \<open>taskCreated\<close> downwards and stops after \<open>Limit\<close> items. Items of equal
  \<open>taskCreated\<close> come in table order here; the service promises no order for them.
\<close>

definition created :: "item \<Rightarrow> int" where
  "created it = (case numberOf (it ''taskCreated'') of Some n \<Rightarrow> n | None \<Rightarrow> 0)"

definition indexed :: "string \<Rightarrow> item \<Rightarrow> bool" where
  "indexed status it \<longleftrightarrow>
     stringOf (it ''taskStatus'') = Some status \<and> numberOf (it ''taskCreated'') \<noteq> None"

definition QueryCommand :: "string \<Rightarrow> nat \<Rightarrow> table \<Rightarrow> item list" where
  "QueryCommand status limit tbl =
     take limit (sort_key (\<lambda>it. - created it) (filter (indexed status) (map snd tbl)))"

text \<open>
  The callback of \<open>tasks.map\<close>. Reading \<open>.S\<close> or \<open>.N\<close> of an attribute that the item
  lacks throws; \<open>None\<close> stands for that. An attribute of the other type is treated
  alike.
\<close>

definition toTask :: "item \<Rightarrow> task option" where
  "toTask it =
     (case (stringOf (it ''taskId''), stringOf (it ''taskStatus''),
            numberOf (it ''taskCreated''), numberOf (it ''taskUpdated'')) of
        (Some i, Some s, Some c, Some u) \<Rightarrow>
          Some \<lparr>taskId = i, taskStatus = s, taskCreated = c, taskUpdated = u\<rparr>
      | _ \<Rightarrow> None)"

text \<open>
  \<open>getPendingTaskBatch()\<close>. A failed query and a throwing callback both end in the
  \<open>catch\<close>, which returns the empty batch.
\<close>

definition getPendingTaskBatch :: "js_error option \<Rightarrow> 'a world_scheme \<Rightarrow> task list \<times> 'a world_scheme" where
  "getPendingTaskBatch fault w =
     (case fault of
        Some err \<Rightarrow>
          ([], w\<lparr>console := console w @
                   [logged ERROR ''GET_PENDING_TASK_BATCH_ERROR'' None None]\<rparr>)
      | None \<Rightarrow>
          (let tasks = QueryCommand ''PENDING'' pageLimit (table w);
               w1 = w\<lparr>console := console w @ [logged LOG ''GET_PENDING_TASK_BATCH'' None None]\<rparr>
           in case those (map toTask tasks) of
                Some batch \<Rightarrow> (batch, w1)
              | None \<Rightarrow>
                  ([], w1\<lparr>console := console w1 @
                           [logged ERROR ''GET_PENDING_TASK_BATCH_ERROR'' None None]\<rparr>)))"

section \<open>call\_function.js\<close>

text \<open>
  \<open>callFunction({topicArn})\<close>: the \<open>PublishCommand\<close> is handed to the SNS client, which
  may reject it (\<open>fault\<close>); the rejection is caught and logged.
\<close>

definition callFunction :: "js_error option \<Rightarrow> string \<Rightarrow> 'a world_scheme \<Rightarrow> 'a world_scheme" where
  "callFunction fault topicArn w =
     (let w1 = w\<lparr>published := published w @ [(topicArn, ''Start'')]\<rparr>
      in case fault of
           None \<Rightarrow> w1\<lparr>console := console w1 @ [logged LOG ''CALL_FUNCTION'' None None]\<rparr>
         | Some err \<Rightarrow> w1\<lparr>console := console w1 @ [logged ERROR ''CALL_FUNCTION_ERROR'' None None]\<rparr>)"

section \<open>process\_tasks.js: processing a batch\<close>

text \<open>
  The task runner is a collaborator. \<open>invoke\<close> is the call \<open>taskRunner(task)\<close>, which
  gives a promise; \<open>settle\<close> is the moment the promise is fulfilled with a value or
  rejected. The runner has a state of its own, of any type.
\<close>

datatype outcome = Returns string | Throws js_error

record ('p, 'r) taskRunner =
  invoke :: "task \<Rightarrow> 'r \<Rightarrow> 'p \<times> 'r"
  settle :: "'p \<Rightarrow> 'r \<Rightarrow> outcome \<times> 'r"

text \<open>
  Where the promise of one \<open>wrapProcessTask(task, delay)\<close> stands: its timer has not
  fired; the task is leased and \<open>processTask\<close> awaits the runner; \<open>processTask\<close> has
  returned and the promise is resolved.
\<close>

datatype 'p phase = is_Scheduled: Scheduled | is_Running: Running 'p | is_Settled: Settled

text \<open>
  One activation of the worker: the world, the runner's state, the tasks the runner was
  called with (kept for the proofs only) and the promises of the batch in hand.
\<close>

record ('p, 'r) activation = world +
  runnerState :: 'r
  calls :: "task list"
  procs :: "(task \<times> 'p phase) list"

text \<open>
  \<open>processTask\<close> up to its second \<open>await\<close>: the lease and, if it is granted, the call
  of the runner.
\<close>

definition processTask_lease ::
  "('p, 'r) taskRunner \<Rightarrow> js_error \<Rightarrow> int \<Rightarrow> js_error option \<Rightarrow> nat \<Rightarrow> task \<Rightarrow>
     ('p, 'r) activation \<Rightarrow> ('p, 'r) activation" where
  "processTask_lease R refusal now fault i task s =
     (case transitionTask refusal now fault task ''PENDING'' ''TAKEN'' s of
        (True, s1) \<Rightarrow>
          (let (p, r) = invoke R task (runnerState s1)
           in s1\<lparr>runnerState := r, calls := calls s1 @ [task],
                  procs := (procs s1)[i := (task, Running p)]\<rparr>)
      | (False, s1) \<Rightarrow> s1\<lparr>procs := (procs s1)[i := (task, Settled)]\<rparr>)"

text \<open>
  \<open>processTask\<close> from the settling of the runner's promise: \<open>try\<close>, \<open>catch\<close> and
  \<open>finally\<close>.
\<close>

definition processTask_conclude ::
  "('p, 'r) taskRunner \<Rightarrow> js_error \<Rightarrow> int \<Rightarrow> js_error option \<Rightarrow> nat \<Rightarrow> task \<Rightarrow> 'p \<Rightarrow>
     ('p, 'r) activation \<Rightarrow> ('p, 'r) activation" where
  "processTask_conclude R refusal now fault i task p s =
     (let toState = ''FAILURE'';
          (result, r) = settle R p (runnerState s);
          s1 = s\<lparr>runnerState := r\<rparr>;
          (toState, s2) =
            (case result of
               Returns v \<Rightarrow> (v, s1)
             | Throws err \<Rightarrow>
                 (''PENDING'',
                  s1\<lparr>console := console s1 @
                       [logged ERROR ''PROCESS_TASK_ERROR'' (Some (taskId task)) None]\<rparr>));
          (done, s3) = transitionTask refusal now fault task ''TAKEN'' toState s2
      in s3\<lparr>procs := (procs s3)[i := (task, Settled)]\<rparr>)"

text \<open>
  What happens while a batch is in hand. \<open>Proceed i now fault\<close>: the next continuation
  of the \<open>i\<close>-th task of the batch runs, at clock reading \<open>now\<close>, with \<open>fault\<close> the
  environment's choice for its request to the table. \<open>Elsewhere tbl\<close>: somebody else
  (a producer, the expiry sweep, another worker) leaves the table as \<open>tbl\<close>. The
  continuations of different tasks may come in any order.
\<close>

datatype event = Proceed nat int "js_error option" | Elsewhere table

definition step ::
  "('p, 'r) taskRunner \<Rightarrow> js_error \<Rightarrow> event \<Rightarrow> ('p, 'r) activation \<Rightarrow> ('p, 'r) activation" where
  "step R refusal e s =
     (case e of
        Elsewhere tbl \<Rightarrow> s\<lparr>table := tbl\<rparr>
      | Proceed i now fault \<Rightarrow>
          if i < length (procs s) then
            (case procs s ! i of
               (task, Scheduled) \<Rightarrow> processTask_lease R refusal now fault i task s
             | (task, Running p) \<Rightarrow> processTask_conclude R refusal now fault i task p s
             | (task, Settled) \<Rightarrow> s)
          else s)"

text \<open>
  \<open>processTaskBatch(tasks)\<close>: one timer and one promise for each task. The timers are
  set \<open>delayBetweenTask\<close> apart, so they fire in the order of the batch; the events
  allow that order and every other.
\<close>

definition processTaskBatch :: "task list \<Rightarrow> ('p, 'r) activation \<Rightarrow> ('p, 'r) activation" where
  "processTaskBatch tasks s =
     s\<lparr>console := console s @ [logged LOG ''PROCESS_TASK_BATCH'' None None],
       procs := map (\<lambda>task. (task, Scheduled)) tasks\<rparr>"

text \<open>What \<open>Promise.allSettled\<close> waits for.\<close>

definition allSettled :: "('p, 'r) activation \<Rightarrow> bool" where
  "allSettled s = list_all (\<lambda>(task, ph). is_Settled ph) (procs s)"

section \<open>process\_tasks.js: the loop\<close>

text \<open>
  What the environment contributes to one turn of the loop: the fault of the query, what
  happens while the batch is in hand, the fault of the publish request, and the time in
  milliseconds that passes on top of \<open>delayBetweenBatch\<close> until the next turn starts.
\<close>

record turn =
  queryFault :: "js_error option"
  events :: "event list"
  publishFault :: "js_error option"
  waited :: nat

text \<open>
  How \<open>getAndProcessTasksOrResolve\<close> ends: with \<open>waitAndContinue\<close>, with \<open>resolve\<close>,
  or never, because a promise of the batch never settles.
\<close>

datatype 'a ending = WaitAndContinue 'a | Resolve 'a | Awaiting

definition getAndProcessTasksOrResolve ::
  "('p, 'r) taskRunner \<Rightarrow> js_error \<Rightarrow> string \<Rightarrow> turn \<Rightarrow> bool \<Rightarrow> ('p, 'r) activation \<Rightarrow>
     ('p, 'r) activation ending" where
  "getAndProcessTasksOrResolve R refusal topicArn env reachedTimeLimit s =
     (let (tasks, s1) = getPendingTaskBatch (queryFault env) s;
          hasTasks = (length tasks > 0)
      in if hasTasks \<and> \<not> reachedTimeLimit then
           (let s2 = fold (step R refusal) (events env) (processTaskBatch tasks s1)
            in if allSettled s2 then WaitAndContinue s2 else Awaiting)
         else
           Resolve
             (if hasTasks then
                callFunction (publishFault env) topicArn
                  (s1\<lparr>console := console s1 @ [logged LOG ''TAIL_CALL_TRIGGER'' None None]\<rparr>)
              else s1))"

definition reachedTimeLimit :: "int \<Rightarrow> int \<Rightarrow> bool" where
  "reachedTimeLimit start now = (let activeTime = \<bar>start - now\<bar> in activeTime \<ge> maxActiveTime)"




section \<open>task\_runner.js: the demonstration runner\<close>

definition fakeMaxActiveTasks :: int where
  "fakeMaxActiveTasks = 3"

text \<open>
  The module's variable \<open>activeTaskCount\<close>, with the lines the runner logs. The promise
  that \<open>fakeTaskRunner\<close> returns is either resolved already, or waits for the timer of
  \<open>fakeTaskDuration\<close>.
\<close>

record fakeState =
  activeTaskCount :: int
  runnerConsole :: "log_entry list"

datatype fakePromise = Resolved string | Timer task

definition fakeStart :: fakeState where
  "fakeStart = \<lparr>activeTaskCount = 0, runnerConsole = []\<rparr>"

definition fakeTaskRunner_invoke :: "task \<Rightarrow> fakeState \<Rightarrow> fakePromise \<times> fakeState" where
  "fakeTaskRunner_invoke task st =
     (let maxActiveTasks = fakeMaxActiveTasks
      in if activeTaskCount st \<ge> maxActiveTasks then
           (Resolved ''PENDING'',
            st\<lparr>runnerConsole := runnerConsole st @
                 [logged LOG ''TASK_RUN_SKIP'' (Some (taskId task)) None]\<rparr>)
         else
           (Timer task,
            st\<lparr>runnerConsole := runnerConsole st @
                 [logged LOG ''TASK_RUN_START'' (Some (taskId task)) None],
               activeTaskCount := activeTaskCount st + 1\<rparr>))"

definition fakeTaskRunner_settle :: "fakePromise \<Rightarrow> fakeState \<Rightarrow> outcome \<times> fakeState" where
  "fakeTaskRunner_settle p st =
     (case p of
        Resolved v \<Rightarrow> (Returns v, st)
      | Timer task \<Rightarrow>
          (Returns ''SUCCESS'',
           st\<lparr>runnerConsole := runnerConsole st @
                [logged LOG ''TASK_RUN_COMPLETE'' (Some (taskId task)) None],
              activeTaskCount := activeTaskCount st - 1\<rparr>))"

definition fakeTaskRunner :: "(fakePromise, fakeState) taskRunner" where
  "fakeTaskRunner = \<lparr>invoke = fakeTaskRunner_invoke, settle = fakeTaskRunner_settle\<rparr>"

section \<open>Reading the console and the events\<close>

text \<open>The line that \<open>transitionTask\<close> logs when a lease is granted.\<close>

definition granted :: "log_entry \<Rightarrow> bool" where
  "granted e \<longleftrightarrow>
     level e = LOG \<and> event e = ''TRANSITION_TASK'' \<and> move e = Some (''PENDING'', ''TAKEN'')"

text \<open>A line that \<open>transitionTask\<close> logs for the lease of a task, granted or not.\<close>

definition attempted :: "task \<Rightarrow> log_entry \<Rightarrow> bool" where
  "attempted task e \<longleftrightarrow>
     (event e = ''TRANSITION_TASK'' \<or> event e = ''TRANSITION_TASK_FAILED'') \<and>
     subject e = Some (taskId task) \<and> move e = Some (''PENDING'', ''TAKEN'')"

text \<open>The task of the batch whose continuation an event runs.\<close>

definition target :: "event \<Rightarrow> nat option" where
  "target e = (case e of Proceed i now fault \<Rightarrow> Some i | Elsewhere tbl \<Rightarrow> None)"

section \<open>Notions used in the proofs\<close>

text \<open>The state in which \<open>processTask\<close> calls \<open>transitionTask\<close> for the second time, and
  the status it passes.\<close>

definition concluding ::
  "('p, 'r) taskRunner \<Rightarrow> task \<Rightarrow> 'p \<Rightarrow> ('p, 'r) activation \<Rightarrow> string \<times> ('p, 'r) activation" where
  "concluding R task p s =
     (case fst (settle R p (runnerState s)) of
        Returns v \<Rightarrow> (v, s\<lparr>runnerState := snd (settle R p (runnerState s))\<rparr>)
      | Throws err \<Rightarrow>
          (''PENDING'',
           s\<lparr>runnerState := snd (settle R p (runnerState s)),
             console := console s @
               [logged ERROR ''PROCESS_TASK_ERROR'' (Some (taskId task)) None]\<rparr>))"

text \<open>How far the promise of a task has come.\<close>

fun progress :: "'p phase \<Rightarrow> nat" where
  "progress Scheduled = 0"
| "progress (Running p) = 1"
| "progress Settled = 2"

text \<open>A console line of a transition to the given status.\<close>

definition movesTo :: "string \<Rightarrow> log_entry \<Rightarrow> bool" where
  "movesTo b e = (case move e of Some (a, b') \<Rightarrow> b' = b | None \<Rightarrow> False)"

text \<open>The promises that \<open>fakeTaskRunner\<close> returns.\<close>

definition benign :: "fakePromise phase \<Rightarrow> bool" where
  "benign ph = (case ph of Running (Resolved v) \<Rightarrow> v = ''PENDING'' | _ \<Rightarrow> True)"

section \<open>Tables as the programs leave them\<close>

text \<open>
  Every item that \<open>createTask\<close> puts has the four attributes that
  \<open>getPendingTaskBatch\<close> reads, its \<open>taskId\<close> attribute is its key, and
  \<open>transitionTask\<close> keeps this so.
\<close>

definition wellFormed :: "table \<Rightarrow> bool" where
  "wellFormed tbl \<longleftrightarrow>
     distinct (map fst tbl) \<and>
     list_all (\<lambda>(key, it).
         stringOf (it ''taskId'') = Some key \<and> stringOf (it ''taskStatus'') \<noteq> None \<and>
         numberOf (it ''taskCreated'') \<noteq> None \<and> numberOf (it ''taskUpdated'') \<noteq> None) tbl"

text \<open>The items of status \<open>PENDING\<close> in the index, in table order.\<close>

definition pendingItems :: "table \<Rightarrow> item list" where
  "pendingItems tbl = filter (indexed ''PENDING'') (map snd tbl)"

definition persistedCreated :: "table \<Rightarrow> string \<Rightarrow> int option" where
  "persistedCreated tbl key =
     (case map_of tbl key of None \<Rightarrow> None | Some it \<Rightarrow> numberOf (it ''taskCreated''))"

section \<open>Sample data\<close>

text \<open>An item as \<open>createTask\<close> writes it at time \<open>c\<close>, with a given status.\<close>

definition sampleItem :: "string \<Rightarrow> string \<Rightarrow> int \<Rightarrow> item" where
  "sampleItem key status c =
     [''taskId'' \<mapsto> S key, ''taskStatus'' \<mapsto> S status, ''taskCreated'' \<mapsto> N c,
      ''taskUpdated'' \<mapsto> N c, ''ttl'' \<mapsto> N (c + 3600000)]"

definition sampleRefusal :: js_error where
  "sampleRefusal =
     \<lparr>code = Some ''ConditionalCheckFailedException'', message = ''The conditional request failed''\<rparr>"

definition sampleTask :: "string \<Rightarrow> int \<Rightarrow> task" where
  "sampleTask key c = \<lparr>taskId = key, taskStatus = ''PENDING'', taskCreated = c, taskUpdated = c\<rparr>"

definition sampleWorld :: world where
  "sampleWorld =
     \<lparr>table = [(''a'', sampleItem ''a'' ''PENDING'' 1), (''b'', sampleItem ''b'' ''SUCCESS'' 2)],
      console = [], published = []\<rparr>"

definition sampleQueue :: world where
  "sampleQueue =
     \<lparr>table =
        [(''01'', sampleItem ''01'' ''PENDING'' 1), (''02'', sampleItem ''02'' ''PENDING'' 2),
         (''03'', sampleItem ''03'' ''PENDING'' 3), (''04'', sampleItem ''04'' ''SUCCESS'' 4),
         (''05'', sampleItem ''05'' ''PENDING'' 5), (''06'', sampleItem ''06'' ''PENDING'' 6),
         (''07'', sampleItem ''07'' ''PENDING'' 7), (''08'', sampleItem ''08'' ''PENDING'' 8),
         (''09'', sampleItem ''09'' ''PENDING'' 9), (''10'', sampleItem ''10'' ''PENDING'' 10),
         (''11'', sampleItem ''11'' ''PENDING'' 11), (''12'', sampleItem ''12'' ''PENDING'' 12),
         (''13'', sampleItem ''13'' ''PENDING'' 13)],
      console = [], published = []\<rparr>"

definition sampleLeased :: world where
  "sampleLeased =
     \<lparr>table = [(''a'', sampleItem ''a'' ''TAKEN'' 1), (''b'', sampleItem ''b'' ''PENDING'' 2),
               (''c'', sampleItem ''c'' ''PENDING'' 3)],
      console = [], published = []\<rparr>"

definition sampleBatch :: "(fakePromise, fakeState) activation" where
  "sampleBatch =
     \<lparr>table = [(''a'', sampleItem ''a'' ''PENDING'' 1), (''b'', sampleItem ''b'' ''SUCCESS'' 2)],
      console = [], published = [], runnerState = fakeStart, calls = [],
      procs = [(sampleTask ''a'' 1, Scheduled), (sampleTask ''b'' 2, Scheduled)]\<rparr>"

definition sampleError :: js_error where
  "sampleError = \<lparr>code = None, message = ''the runner failed''\<rparr>"

text \<open>A runner whose promise is always rejected.\<close>

definition throwingRunner :: "(unit, unit) taskRunner" where
  "throwingRunner =
     \<lparr>invoke = (\<lambda>task r. ((), r)), settle = (\<lambda>p r. (Throws sampleError, r))\<rparr>"

definition sampleRunning :: "(unit, unit) activation" where
  "sampleRunning =
     \<lparr>table = [(''a'', sampleItem ''a'' ''TAKEN'' 1)],
      console = [], published = [], runnerState = (), calls = [sampleTask ''a'' 1],
      procs = [(sampleTask ''a'' 1, Running ())]\<rparr>"

definition sampleIdle :: "(unit, unit) activation" where
  "sampleIdle =
     \<lparr>table = [(''a'', sampleItem ''a'' ''PENDING'' 1), (''b'', sampleItem ''b'' ''PENDING'' 2)],
      console = [], published = [], runnerState = (), calls = [], procs = []\<rparr>"

definition sampleTurn :: turn where
  "sampleTurn =
     \<lparr>queryFault = None,
      events = [Proceed 0 10 None, Proceed 1 11 (Some sampleError), Proceed 0 12 None,
                Proceed 1 13 None],
      publishFault = None, waited = 60000\<rparr>"

section \<open>Properties of the conditional transition\<close>

lemma persistedStatus_update:
  "persistedStatus (AList.update key it tbl) key =
     (case it ''taskStatus'' of Some (S s) \<Rightarrow> Some s | _ \<Rightarrow> None)"
  by (simp add: persistedStatus_def update_conv')

lemma persistedUpdated_update:
  "persistedUpdated (AList.update key it tbl) key =
     (case it ''taskUpdated'' of Some (N n) \<Rightarrow> Some n | _ \<Rightarrow> None)"
  by (simp add: persistedUpdated_def update_conv')

lemma UpdateItemCommand_Inr_iff:
  "(\<exists>tbl'. UpdateItemCommand refusal key a b now tbl = Inr tbl') \<longleftrightarrow> persistedStatus tbl key = Some a"
  by (auto simp: UpdateItemCommand_def persistedStatus_def split: option.splits attr.splits)

lemma map_of_Some_key: "map_of tbl key = Some it \<Longrightarrow> key \<in> fst ` set tbl"
  by (metis domI dom_map_of_conv_image_fst)

lemma UpdateItemCommand_Inr:
  assumes "UpdateItemCommand refusal key a b now tbl = Inr tbl'"
  shows "persistedStatus tbl' key = Some b" and "persistedUpdated tbl' key = Some now"
    and "map fst tbl' = map fst tbl"
    and "\<And>k. k \<noteq> key \<Longrightarrow> map_of tbl' k = map_of tbl k"
    and "\<And>c. c \<noteq> ''taskStatus'' \<Longrightarrow> c \<noteq> ''taskUpdated'' \<Longrightarrow> attribute tbl' key c = attribute tbl key c"
  using assms
  by (auto simp: UpdateItemCommand_def persistedStatus_update persistedUpdated_update
      attribute_def update_conv' update_keys map_of_Some_key
      split: option.splits if_splits)

text \<open>
  C1. With the request reaching the table, \<open>transitionTask\<close> succeeds exactly when the
  persisted status equals \<open>fromTaskStatus\<close>; on success the item's status is
  \<open>toTaskStatus\<close> and its update time is \<open>now\<close>, written in the one step, and on
  failure the table is as it was. Whatever the environment does to the request, a task
  whose persisted status is \<open>SUCCESS\<close> or \<open>FAILURE\<close> cannot be moved with origin
  \<open>PENDING\<close> or \<open>TAKEN\<close>: the call returns false and the table is unchanged.
\<close>

theorem transitionTask_iff_status:
  "(fst (transitionTask refusal now None task a b w) \<longleftrightarrow> persistedStatus (table w) (taskId task) = Some a) \<and>
   (fst (transitionTask refusal now None task a b w) \<longrightarrow>
      persistedStatus (table (snd (transitionTask refusal now None task a b w))) (taskId task) = Some b \<and>
      persistedUpdated (table (snd (transitionTask refusal now None task a b w))) (taskId task) = Some now) \<and>
   (\<not> fst (transitionTask refusal now None task a b w) \<longrightarrow>
      table (snd (transitionTask refusal now None task a b w)) = table w) \<and>
   (persistedStatus (table w) (taskId task) \<in> {Some ''SUCCESS'', Some ''FAILURE''} \<and>
    a \<in> {''PENDING'', ''TAKEN''} \<longrightarrow>
      \<not> fst (transitionTask refusal now fault task a b w) \<and>
      table (snd (transitionTask refusal now fault task a b w)) = table w)"
proof -
  let ?cmd = "UpdateItemCommand refusal (taskId task) a b now (table w)"
  have ok: "fst (transitionTask refusal now None task a b w) \<longleftrightarrow> (\<exists>tbl'. ?cmd = Inr tbl')"
    by (cases ?cmd) (simp_all add: transitionTask_def send_def)
  have 1: "fst (transitionTask refusal now None task a b w) \<longleftrightarrow>
      persistedStatus (table w) (taskId task) = Some a"
    using ok UpdateItemCommand_Inr_iff by simp
  have 2: "persistedStatus (table (snd (transitionTask refusal now None task a b w))) (taskId task) = Some b \<and>
      persistedUpdated (table (snd (transitionTask refusal now None task a b w))) (taskId task) = Some now"
    if "fst (transitionTask refusal now None task a b w)"
  proof -
    from that ok obtain tbl' where c: "?cmd = Inr tbl'" by blast
    then have "table (snd (transitionTask refusal now None task a b w)) = tbl'"
      by (simp add: transitionTask_def send_def)
    with UpdateItemCommand_Inr(1,2)[OF c] show ?thesis by simp
  qed
  have 3: "table (snd (transitionTask refusal now f task a b w)) = table w"
    if "\<not> fst (transitionTask refusal now f task a b w)" for f
    using that
    by (cases f; cases ?cmd) (simp_all add: transitionTask_def send_def)
  have 4: "\<not> fst (transitionTask refusal now fault task a b w)"
    if "persistedStatus (table w) (taskId task) \<in> {Some ''SUCCESS'', Some ''FAILURE''}"
      and "a \<in> {''PENDING'', ''TAKEN''}"
  proof (cases fault)
    case None
    with 1 that show ?thesis by auto
  next
    case (Some e)
    then show ?thesis by (simp add: transitionTask_def send_def)
  qed
  from 1 2 3 4 show ?thesis by blast
qed

theorem transitionTask_iff_status_witness:
  "fst (transitionTask sampleRefusal 7 None (sampleTask ''a'' 1) ''PENDING'' ''TAKEN'' sampleWorld) \<and>
   persistedStatus (table (snd (transitionTask sampleRefusal 7 None (sampleTask ''a'' 1) ''PENDING'' ''TAKEN'' sampleWorld))) ''a''
     = Some ''TAKEN'' \<and>
   persistedUpdated (table (snd (transitionTask sampleRefusal 7 None (sampleTask ''a'' 1) ''PENDING'' ''TAKEN'' sampleWorld))) ''a''
     = Some 7 \<and>
   persistedStatus (table sampleWorld) ''b'' = Some ''SUCCESS'' \<and>
   \<not> fst (transitionTask sampleRefusal 7 None (sampleTask ''b'' 2) ''TAKEN'' ''PENDING'' sampleWorld) \<and>
   table (snd (transitionTask sampleRefusal 7 None (sampleTask ''b'' 2) ''TAKEN'' ''PENDING'' sampleWorld)) = table sampleWorld"
  using transitionTask_iff_status [of sampleRefusal 7 "sampleTask ''a'' 1" "''PENDING''" "''TAKEN''" sampleWorld None]
    transitionTask_iff_status [of sampleRefusal 7 "sampleTask ''b'' 2" "''TAKEN''" "''PENDING''" sampleWorld None]
  by (simp add: persistedStatus_def sampleWorld_def sampleTask_def sampleItem_def)

section \<open>Properties of createTask\<close>

text \<open>
  C2. \<open>createTask\<close> puts its item under the \<open>taskId\<close> without any condition. When the
  request reaches the table it returns true, and the table then holds, for that
  \<open>taskId\<close>, the item with status \<open>PENDING\<close>, \<open>taskCreated\<close> and \<open>taskUpdated\<close> both
  \<open>now\<close>, and \<open>ttl\<close> one hour (3600000 ms) after \<open>now\<close>; all other keys are as before.
  A fresh \<open>taskId\<close> is appended to the table, an existing one keeps its place and has
  its item replaced. When the request fails, false is returned and the table is
  unchanged.
\<close>

theorem createTask_puts:
  "fst (createTask now None key w) \<and>
   map_of (table (snd (createTask now None key w))) =
     (map_of (table w))(key \<mapsto>
        [''taskId'' \<mapsto> S key, ''taskStatus'' \<mapsto> S ''PENDING'', ''taskCreated'' \<mapsto> N now,
         ''taskUpdated'' \<mapsto> N now, ''ttl'' \<mapsto> N (now + 3600000)]) \<and>
   map fst (table (snd (createTask now None key w))) =
     (if key \<in> set (map fst (table w)) then map fst (table w) else map fst (table w) @ [key]) \<and>
   \<not> fst (createTask now (Some err) key w) \<and>
   table (snd (createTask now (Some err) key w)) = table w"
  by (simp add: createTask_def send_def PutItemCommand_def Let_def update_conv' update_keys
      ttlAmount_def ttlUnit_def)

text \<open>
  The claim as it was stated, that an insert under an existing \<open>taskId\<close> fails or changes
  nothing, does not hold: the task \<open>b\<close> of the sample table, finished with \<open>SUCCESS\<close>
  and created at 2, is \<open>PENDING\<close> and created at 9 after \<open>createTask\<close> of the same id.
\<close>

theorem createTask_overwrites_counterexample:
  "persistedStatus (table sampleWorld) ''b'' = Some ''SUCCESS'' \<and>
   attribute (table sampleWorld) ''b'' ''taskCreated'' = Some (N 2) \<and>
   fst (createTask 9 None ''b'' sampleWorld) \<and>
   persistedStatus (table (snd (createTask 9 None ''b'' sampleWorld))) ''b'' = Some ''PENDING'' \<and>
   attribute (table (snd (createTask 9 None ''b'' sampleWorld))) ''b'' ''taskCreated'' = Some (N 9)"
  by (simp add: createTask_def send_def PutItemCommand_def persistedStatus_def attribute_def
      sampleWorld_def sampleItem_def logged_def Let_def)

section \<open>How a failed transition is reported\<close>

lemma UpdateItemCommand_refused:
  "persistedStatus tbl key \<noteq> Some a \<Longrightarrow> UpdateItemCommand refusal key a b now tbl = Inl refusal"
  by (auto simp: UpdateItemCommand_def persistedStatus_def split: option.splits)

lemma transitionTask_fault:
  "transitionTask refusal now (Some e) task a b w =
     (False, w\<lparr>console := console w @
        (if code e \<noteq> Some ''ConditionalCheckFailedException''
         then [logged ERROR ''TRANSITION_TASK_ERROR'' (Some (taskId task)) None] else []) @
        [logged LOG ''TRANSITION_TASK_FAILED'' (Some (taskId task)) (Some (a, b))]\<rparr>)"
  by (simp add: transitionTask_def send_def)

lemma transitionTask_refused:
  "persistedStatus (table w) (taskId task) \<noteq> Some a \<Longrightarrow>
   transitionTask refusal now None task a b w =
     (False, w\<lparr>console := console w @
        (if code refusal \<noteq> Some ''ConditionalCheckFailedException''
         then [logged ERROR ''TRANSITION_TASK_ERROR'' (Some (taskId task)) None] else []) @
        [logged LOG ''TRANSITION_TASK_FAILED'' (Some (taskId task)) (Some (a, b))]\<rparr>)"
  by (simp add: transitionTask_def send_def UpdateItemCommand_refused)

lemma transitionTask_granted:
  "persistedStatus (table w) (taskId task) = Some a \<Longrightarrow>
   \<exists>tbl. transitionTask refusal now None task a b w =
     (True, w\<lparr>table := tbl, console := console w @
        [logged LOG ''TRANSITION_TASK'' (Some (taskId task)) (Some (a, b))]\<rparr>)"
proof -
  assume "persistedStatus (table w) (taskId task) = Some a"
  then obtain tbl where "UpdateItemCommand refusal (taskId task) a b now (table w) = Inr tbl"
    using UpdateItemCommand_Inr_iff by blast
  then show ?thesis by (intro exI[of _ tbl]) (simp add: transitionTask_def send_def)
qed



text \<open>
  The proviso matters: with a client whose error for a false condition has another code,
  or none, every refused transition writes a \<open>console.error\<close> line as well.
\<close>

lemma transitionTask_refusal_of_other_code:
  "code refusal \<noteq> Some ''ConditionalCheckFailedException'' \<Longrightarrow>
   persistedStatus (table w) (taskId task) \<noteq> Some a \<Longrightarrow>
   transitionTask refusal now None task a b w =
     (False, w\<lparr>console := console w @
        [logged ERROR ''TRANSITION_TASK_ERROR'' (Some (taskId task)) None,
         logged LOG ''TRANSITION_TASK_FAILED'' (Some (taskId task)) (Some (a, b))]\<rparr>)"
  by (simp add: transitionTask_refused)

section \<open>Properties of the batch selection\<close>

lemma those_map_total:
  "(\<And>x. x \<in> set xs \<Longrightarrow> f x \<noteq> None) \<Longrightarrow> those (map f xs) = Some (map (the \<circ> f) xs)"
  by (induction xs) (auto split: option.splits)

lemma wellFormed_toTask:
  assumes "wellFormed tbl" and "it \<in> set (map snd tbl)"
  shows "toTask it \<noteq> None"
  using assms
  by (auto simp: wellFormed_def list_all_iff toTask_def split: option.splits)

lemma toTask_fields:
  assumes "toTask it = Some t"
  shows "taskCreated t = created it" and "stringOf (it ''taskStatus'') = Some (taskStatus t)"
    and "stringOf (it ''taskId'') = Some (taskId t)"
  using assms by (auto simp: toTask_def created_def split: option.splits)

lemma QueryCommand_subset:
  "set (QueryCommand st n tbl) \<subseteq> set (filter (indexed st) (map snd tbl))"
  unfolding QueryCommand_def by (metis set_sort set_take_subset)

lemma QueryCommand_length: "length (QueryCommand st n tbl) \<le> n"
  by (simp add: QueryCommand_def)

lemma newest_first_sorted:
  "sorted_wrt (\<lambda>a b. created a \<ge> created b) (sort_key (\<lambda>it. - created it) xs)"
proof -
  have "sorted (map (\<lambda>it. - created it) (sort_key (\<lambda>it. - created it) xs))"
    by (rule sorted_sort_key)
  then show ?thesis by (simp add: sorted_map)
qed

lemma newest_first_strict:
  assumes "distinct (map created xs)"
  shows "sorted_wrt (\<lambda>a b. created a > created b) (sort_key (\<lambda>it. - created it) xs)"
proof -
  let ?L = "sort_key (\<lambda>it. - created it) xs"
  from assms have "distinct xs" and inj: "inj_on created (set xs)"
    by (simp_all add: distinct_map)
  then have "distinct (map created ?L)"
    by (simp add: distinct_map)
  then have "distinct (map uminus (map created ?L))"
    by (simp add: distinct_map inj_on_def del: map_map)
  moreover have "sorted (map uminus (map created ?L))"
    using sorted_sort_key[of "\<lambda>it. - created it" xs] by (simp add: comp_def)
  ultimately have "sorted_wrt (<) (map uminus (map created ?L))"
    by (simp only: strict_sorted_iff)
  then show ?thesis by (simp add: sorted_wrt_map)
qed

lemma newest_first_rev:
  assumes "distinct (map created xs)"
  shows "sort_key (\<lambda>it. - created it) xs = rev (sort_key created xs)"
proof (rule map_sorted_distinct_set_unique[where f = "\<lambda>it. - created it"])
  from assms have d: "distinct xs" and inj: "inj_on created (set xs)"
    by (simp_all add: distinct_map)
  show "inj_on (\<lambda>it. - created it) (set (sort_key (\<lambda>it. - created it) xs) \<union> set (rev (sort_key created xs)))"
    using inj by (simp add: inj_on_def)
  show "sorted (map (\<lambda>it. - created it) (sort_key (\<lambda>it. - created it) xs))"
    by (rule sorted_sort_key)
  show "distinct (map (\<lambda>it. - created it) (sort_key (\<lambda>it. - created it) xs))"
    using d inj by (simp add: distinct_map inj_on_def)
  have "sorted (map created (sort_key created xs))"
    by (rule sorted_sort_key)
  then show "sorted (map (\<lambda>it. - created it) (rev (sort_key created xs)))"
    by (simp add: sorted_map rev_map sorted_wrt_rev sorted_wrt_map)
  show "distinct (map (\<lambda>it. - created it) (rev (sort_key created xs)))"
    using d inj by (simp add: distinct_map inj_on_def)
  show "set (sort_key (\<lambda>it. - created it) xs) = set (rev (sort_key created xs))"
    by simp
qed

lemma getPendingTaskBatch_tasks:
  assumes "wellFormed (table w)"
  shows "fst (getPendingTaskBatch None w) =
           map (the \<circ> toTask) (QueryCommand ''PENDING'' pageLimit (table w))"
    and "map toTask (QueryCommand ''PENDING'' pageLimit (table w)) =
           map Some (fst (getPendingTaskBatch None w))"
proof -
  let ?Q = "QueryCommand ''PENDING'' pageLimit (table w)"
  have tot: "toTask it \<noteq> None" if "it \<in> set ?Q" for it
    using that QueryCommand_subset[of "''PENDING''" pageLimit "table w"] wellFormed_toTask[OF assms, of it]
    by auto
  then have "those (map toTask ?Q) = Some (map (the \<circ> toTask) ?Q)"
    by (rule those_map_total)
  then show 1: "fst (getPendingTaskBatch None w) = map (the \<circ> toTask) ?Q"
    by (simp add: getPendingTaskBatch_def Let_def)
  show "map toTask ?Q = map Some (fst (getPendingTaskBatch None w))"
    unfolding 1 using tot by (auto simp: map_idI)
qed

text \<open>
  C4. On a table as the programs leave it, in which the \<open>PENDING\<close> items have pairwise
  distinct \<open>taskCreated\<close>, a query that the service answers returns at most
  \<open>pageLimit\<close>, that is 10, tasks, all of status \<open>PENDING\<close>, in strictly descending
  order of \<open>taskCreated\<close>: they are the first 10 of the \<open>PENDING\<close> items read from the
  newest to the oldest. When the table lists the \<open>PENDING\<close> items in ascending
  \<open>taskCreated\<close>, as it does when they were inserted in that order, the batch is the
  reverse of that list cut at 10.
\<close>

theorem getPendingTaskBatch_lifo:
  assumes "wellFormed (table w)" and "distinct (map created (pendingItems (table w)))"
  shows "length (fst (getPendingTaskBatch None w)) \<le> pageLimit \<and> pageLimit = 10 \<and>
    (\<forall>t \<in> set (fst (getPendingTaskBatch None w)). taskStatus t = ''PENDING'') \<and>
    sorted_wrt (\<lambda>a b. taskCreated a > taskCreated b) (fst (getPendingTaskBatch None w)) \<and>
    map Some (fst (getPendingTaskBatch None w)) =
      map toTask (take pageLimit (rev (sort_key created (pendingItems (table w))))) \<and>
    (sorted (map created (pendingItems (table w))) \<longrightarrow>
       map Some (fst (getPendingTaskBatch None w)) =
         map toTask (take pageLimit (rev (pendingItems (table w)))))"
proof -
  let ?P = "pendingItems (table w)"
  let ?Q = "QueryCommand ''PENDING'' pageLimit (table w)"
  let ?B = "fst (getPendingTaskBatch None w)"
  note B = getPendingTaskBatch_tasks[OF assms(1)]
  have Q: "?Q = take pageLimit (sort_key (\<lambda>it. - created it) ?P)"
    by (simp add: QueryCommand_def pendingItems_def)
  have conv: "toTask it = Some ((the \<circ> toTask) it)" if "it \<in> set ?Q" for it
    using that QueryCommand_subset[of "''PENDING''" pageLimit "table w"]
      wellFormed_toTask[OF assms(1), of it] by fastforce
  have 1: "length ?B \<le> pageLimit"
    by (simp add: B(1) QueryCommand_length)
  have 2: "taskStatus t = ''PENDING''" if "t \<in> set ?B" for t
  proof -
    from that obtain it where it: "it \<in> set ?Q" and t: "t = (the \<circ> toTask) it"
      by (auto simp: B(1))
    from it QueryCommand_subset[of "''PENDING''" pageLimit "table w"]
    have "stringOf (it ''taskStatus'') = Some ''PENDING''"
      by (auto simp: indexed_def)
    with toTask_fields(2)[OF conv[OF it]] t show ?thesis by simp
  qed
  have sq: "sorted_wrt (\<lambda>a b. created a > created b) ?Q"
    unfolding Q by (rule sorted_wrt_take) (rule newest_first_strict[OF assms(2)])
  have cr: "taskCreated (the (toTask it)) = created it" if "it \<in> set ?Q" for it
    using toTask_fields(1)[OF conv[OF that]] by simp
  from sq have "sorted_wrt (\<lambda>a b. taskCreated ((the \<circ> toTask) a) > taskCreated ((the \<circ> toTask) b)) ?Q"
    by (rule sorted_wrt_mono_rel[rotated]) (simp add: cr)
  then have 3: "sorted_wrt (\<lambda>a b. taskCreated a > taskCreated b) ?B"
    by (simp add: B(1) sorted_wrt_map)
  have 4: "map Some ?B = map toTask (take pageLimit (rev (sort_key created ?P)))"
    using B(2) by (simp add: Q newest_first_rev[OF assms(2)])
  have 5: "map Some ?B = map toTask (take pageLimit (rev ?P))" if "sorted (map created ?P)"
    using 4 that by (simp add: sort_key_id_if_sorted)
  from 1 2 3 4 5 show ?thesis
    by (simp add: pageLimit_def)
qed

theorem getPendingTaskBatch_lifo_witness:
  "wellFormed (table sampleQueue) \<and>
   distinct (map created (pendingItems (table sampleQueue))) \<and>
   length (pendingItems (table sampleQueue)) = 12 \<and>
   length (fst (getPendingTaskBatch None sampleQueue)) \<le> pageLimit \<and>
   sorted_wrt (\<lambda>a b. taskCreated a > taskCreated b) (fst (getPendingTaskBatch None sampleQueue)) \<and>
   map taskId (fst (getPendingTaskBatch None sampleQueue)) =
     [''13'', ''12'', ''11'', ''10'', ''09'', ''08'', ''07'', ''06'', ''05'', ''03'']"
proof -
  have wf: "wellFormed (table sampleQueue)"
    by (simp add: wellFormed_def sampleQueue_def sampleItem_def stringOf_def numberOf_def)
  have d: "distinct (map created (pendingItems (table sampleQueue)))"
    by (simp add: pendingItems_def indexed_def created_def sampleQueue_def sampleItem_def
        stringOf_def numberOf_def)
  have n: "length (pendingItems (table sampleQueue)) = 12"
    by (simp add: pendingItems_def indexed_def sampleQueue_def sampleItem_def
        stringOf_def numberOf_def)
  have b: "map taskId (fst (getPendingTaskBatch None sampleQueue)) =
     [''13'', ''12'', ''11'', ''10'', ''09'', ''08'', ''07'', ''06'', ''05'', ''03'']"
    by (simp add: getPendingTaskBatch_def QueryCommand_def pageLimit_def toTask_def indexed_def
        created_def sampleQueue_def sampleItem_def stringOf_def numberOf_def Let_def)
  from wf d n b getPendingTaskBatch_lifo[OF wf d] show ?thesis by simp
qed

section \<open>What a transition leaves alone\<close>

lemma transitionTask_table:
  "table (snd (transitionTask refusal now fault task a b w)) =
     (case send fault (UpdateItemCommand refusal (taskId task) a b now) (table w) of
        Inr tbl \<Rightarrow> tbl | Inl err \<Rightarrow> table w)"
  by (simp add: transitionTask_def split: sum.splits)

lemma transitionTask_keys:
  "map fst (table (snd (transitionTask refusal now fault task a b w))) = map fst (table w)"
  by (auto simp: transitionTask_table send_def UpdateItemCommand_Inr(3)
      split: sum.splits option.splits)

lemma transitionTask_attribute:
  assumes "key = taskId task \<Longrightarrow> c \<noteq> ''taskStatus'' \<and> c \<noteq> ''taskUpdated''"
  shows "attribute (table (snd (transitionTask refusal now fault task a b w))) key c =
         attribute (table w) key c"
proof (cases "send fault (UpdateItemCommand refusal (taskId task) a b now) (table w)")
  case (Inl err)
  then show ?thesis by (simp add: transitionTask_table)
next
  case (Inr tbl)
  then have u: "UpdateItemCommand refusal (taskId task) a b now (table w) = Inr tbl"
    by (simp add: send_def split: option.splits)
  have "attribute tbl key c = attribute (table w) key c"
  proof (cases "key = taskId task")
    case True
    with assms UpdateItemCommand_Inr(5)[OF u, of c] show ?thesis by simp
  next
    case False
    with UpdateItemCommand_Inr(4)[OF u, of key] show ?thesis by (simp add: attribute_def)
  qed
  with Inr show ?thesis by (simp add: transitionTask_table)
qed

lemma list_all_update:
  "list_all P tbl \<Longrightarrow> P (key, v) \<Longrightarrow> list_all P (AList.update key v tbl)"
  by (induction tbl) auto

lemma wellFormed_UpdateItemCommand:
  assumes "UpdateItemCommand refusal key a b now tbl = Inr tbl'" and "wellFormed tbl"
  shows "wellFormed tbl'"
proof -
  from assms(1) obtain it where it: "map_of tbl key = Some it"
    and tbl': "tbl' = AList.update key (it(''taskStatus'' \<mapsto> S b, ''taskUpdated'' \<mapsto> N now)) tbl"
    by (auto simp: UpdateItemCommand_def split: option.splits if_splits)
  from it have "(key, it) \<in> set tbl" by (rule map_of_SomeD)
  with assms(2) have "stringOf (it ''taskId'') = Some key" "numberOf (it ''taskCreated'') \<noteq> None"
    by (auto simp: wellFormed_def list_all_iff)
  with assms(2) show ?thesis
    unfolding tbl' wellFormed_def
    by (auto intro!: list_all_update simp: distinct_update stringOf_def numberOf_def)
qed

lemma wellFormed_transitionTask:
  "wellFormed (table w) \<Longrightarrow> wellFormed (table (snd (transitionTask refusal now fault task a b w)))"
  by (auto simp: transitionTask_table send_def wellFormed_UpdateItemCommand
      split: sum.splits option.splits)

lemma wellFormed_put:
  assumes "wellFormed tbl" and "stringOf (it ''taskId'') = Some key"
    and "stringOf (it ''taskStatus'') \<noteq> None" and "numberOf (it ''taskCreated'') \<noteq> None"
    and "numberOf (it ''taskUpdated'') \<noteq> None"
  shows "wellFormed (AList.update key it tbl)"
  using assms unfolding wellFormed_def
  by (simp add: distinct_update list_all_update)

lemma wellFormed_createTask:
  assumes "wellFormed (table w)"
  shows "wellFormed (table (snd (createTask now fault key w)))"
proof (cases fault)
  case None
  have "wellFormed (AList.update key
      [''taskId'' \<mapsto> S key, ''taskStatus'' \<mapsto> S ''PENDING'', ''taskCreated'' \<mapsto> N now,
       ''taskUpdated'' \<mapsto> N now, ''ttl'' \<mapsto> N (now + ttlAmount * ttlUnit)] (table w))"
    by (rule wellFormed_put[OF assms]) (simp_all add: stringOf_def numberOf_def)
  with None show ?thesis
    by (simp add: createTask_def send_def PutItemCommand_def Let_def)
next
  case (Some e)
  with assms show ?thesis by (simp add: createTask_def send_def Let_def)
qed

lemma rank_below:
  assumes "sorted_wrt (\<lambda>a b. f a \<ge> (f b :: int)) L" and "j < length L" and "u \<in> set L"
    and "f u > f (L ! j)"
  shows "\<exists>i<j. L ! i = u"
proof -
  from assms(3) obtain i where i: "i < length L" "L ! i = u"
    by (auto simp: in_set_conv_nth)
  have "i < j"
  proof (rule ccontr)
    assume "\<not> i < j"
    then consider "i = j" | "j < i" by linarith
    then show False
    proof cases
      case 1
      with i assms(4) show False by simp
    next
      case 2
      from sorted_wrt_nth_less[OF assms(1) 2 i(1)] i(2) assms(4) show False by simp
    qed
  qed
  with i show ?thesis by blast
qed

lemma wellFormed_item_of_key:
  assumes "wellFormed tbl" and "it \<in> set (map snd tbl)" and "stringOf (it ''taskId'') = Some key"
  shows "map_of tbl key = Some it"
proof -
  from assms(2) obtain k where k: "(k, it) \<in> set tbl" by auto
  with assms(1) have "stringOf (it ''taskId'') = Some k"
    by (auto simp: wellFormed_def list_all_iff)
  with assms(3) have "k = key" by simp
  with k assms(1) show ?thesis by (simp add: wellFormed_def)
qed

lemma requeued_rank:
  assumes wf: "wellFormed (table w)"
    and j: "j < length (fst (getPendingTaskBatch None w))"
    and k: "taskId (fst (getPendingTaskBatch None w) ! j) = key"
    and u: "u \<in> set (pendingItems (table w))"
    and c: "persistedCreated (table w) key = Some c" and newer: "created u > c"
  shows "taskCreated (fst (getPendingTaskBatch None w) ! j) = c \<and>
         (\<exists>i<j. toTask u = Some (fst (getPendingTaskBatch None w) ! i))"
proof -
  let ?L = "sort_key (\<lambda>it. - created it) (pendingItems (table w))"
  let ?Q = "QueryCommand ''PENDING'' pageLimit (table w)"
  let ?B = "fst (getPendingTaskBatch None w)"
  note B = getPendingTaskBatch_tasks[OF wf]
  have Q: "?Q = take pageLimit ?L"
    by (simp add: QueryCommand_def pendingItems_def)
  from j have jQ: "j < length ?Q" by (simp add: B(1))
  then have jL: "j < length ?L" and jp: "j < pageLimit" by (simp_all add: Q)
  have QL: "?Q ! i = ?L ! i" if "i \<le> j" for i
    using that jp by (simp add: Q)
  have conv: "toTask (?Q ! i) = Some (?B ! i)" if "i \<le> j" for i
  proof -
    from that jQ have "i < length ?Q" by simp
    then have "map toTask ?Q ! i = map Some ?B ! i" by (simp add: B(2))
    with \<open>i < length ?Q\<close> show ?thesis by (simp add: B(1))
  qed
  have "?Q ! j \<in> set (filter (indexed ''PENDING'') (map snd (table w)))"
    using QueryCommand_subset nth_mem[OF jQ] by (rule subsetD)
  then have inT: "?Q ! j \<in> set (map snd (table w))" by simp
  from toTask_fields(3)[OF conv[of j]] k have "stringOf ((?Q ! j) ''taskId'') = Some key" by simp
  from wellFormed_item_of_key[OF wf inT this] c
  have "numberOf ((?Q ! j) ''taskCreated'') = Some c"
    by (simp add: persistedCreated_def)
  then have cj: "created (?Q ! j) = c" by (simp add: created_def)
  with toTask_fields(1)[OF conv[of j]] have 1: "taskCreated (?B ! j) = c" by simp
  have "u \<in> set ?L" using u by simp
  moreover have "created u > created (?L ! j)" using newer cj QL[of j] by simp
  ultimately obtain i where i: "i < j" "?L ! i = u"
    using rank_below[OF newest_first_sorted jL, of u] by blast
  with QL[of i] conv[of i] have "toTask u = Some (?B ! i)" by simp
  with i(1) 1 show ?thesis by blast
qed

lemma granted_transition_status:
  "fst (transitionTask refusal now None task a b w) \<Longrightarrow>
   persistedStatus (table (snd (transitionTask refusal now None task a b w))) (taskId task) = Some b"
proof -
  assume ok: "fst (transitionTask refusal now None task a b w)"
  then obtain tbl where c: "UpdateItemCommand refusal (taskId task) a b now (table w) = Inr tbl"
    by (cases "UpdateItemCommand refusal (taskId task) a b now (table w)")
      (simp_all add: transitionTask_def send_def)
  then have "table (snd (transitionTask refusal now None task a b w)) = tbl"
    by (simp add: transitionTask_table send_def)
  with UpdateItemCommand_Inr(1)[OF c] show ?thesis by simp
qed

lemma persistedCreated_attribute:
  "persistedCreated tbl key = numberOf (attribute tbl key ''taskCreated'')"
  by (simp add: persistedCreated_def attribute_def numberOf_def split: option.splits)

text \<open>
  C5. A transition, whatever its statuses and whether or not it succeeds, keeps the keys
  of the table and every attribute of every item except \<open>taskStatus\<close> and
  \<open>taskUpdated\<close> of the task's own item: \<open>taskId\<close>, \<open>taskCreated\<close>, \<open>ttl\<close> and all
  other attributes are as before. So a task moved from \<open>TAKEN\<close> back to \<open>PENDING\<close>
  is \<open>PENDING\<close> with the \<open>taskCreated\<close> it had, and where the next batch holds it, at
  position \<open>j\<close>, every \<open>PENDING\<close> item with a later \<open>taskCreated\<close> is in the batch at a
  position before \<open>j\<close>.
\<close>

theorem transitionTask_frame_requeue:
  "map fst (table (snd (transitionTask refusal now fault task a b w))) = map fst (table w) \<and>
   (\<forall>key c. (key = taskId task \<longrightarrow> c \<noteq> ''taskStatus'' \<and> c \<noteq> ''taskUpdated'') \<longrightarrow>
      attribute (table (snd (transitionTask refusal now fault task a b w))) key c =
      attribute (table w) key c) \<and>
   (wellFormed (table w) \<and> fst (transitionTask refusal now None task ''TAKEN'' ''PENDING'' w) \<longrightarrow>
      persistedStatus (table (snd (transitionTask refusal now None task ''TAKEN'' ''PENDING'' w)))
        (taskId task) = Some ''PENDING'' \<and>
      persistedCreated (table (snd (transitionTask refusal now None task ''TAKEN'' ''PENDING'' w)))
        (taskId task) = persistedCreated (table w) (taskId task) \<and>
      (\<forall>j c u.
         j < length (fst (getPendingTaskBatch None
               (snd (transitionTask refusal now None task ''TAKEN'' ''PENDING'' w)))) \<and>
         taskId (fst (getPendingTaskBatch None
               (snd (transitionTask refusal now None task ''TAKEN'' ''PENDING'' w))) ! j) = taskId task \<and>
         persistedCreated (table w) (taskId task) = Some c \<and>
         u \<in> set (pendingItems (table (snd (transitionTask refusal now None task ''TAKEN'' ''PENDING'' w)))) \<and>
         created u > c \<longrightarrow>
           taskCreated (fst (getPendingTaskBatch None
               (snd (transitionTask refusal now None task ''TAKEN'' ''PENDING'' w))) ! j) = c \<and>
           (\<exists>i<j. toTask u = Some (fst (getPendingTaskBatch None
               (snd (transitionTask refusal now None task ''TAKEN'' ''PENDING'' w))) ! i))))"
proof -
  let ?w' = "snd (transitionTask refusal now None task ''TAKEN'' ''PENDING'' w)"
  have pc: "persistedCreated (table ?w') (taskId task) = persistedCreated (table w) (taskId task)"
    by (simp add: persistedCreated_attribute transitionTask_attribute)
  have ps: "persistedStatus (table ?w') (taskId task) = Some ''PENDING''"
    if "fst (transitionTask refusal now None task ''TAKEN'' ''PENDING'' w)"
    using that granted_transition_status by blast
  have A: "map fst (table (snd (transitionTask refusal now fault task a b w))) = map fst (table w)"
    by (rule transitionTask_keys)
  have B: "\<forall>key c. (key = taskId task \<longrightarrow> c \<noteq> ''taskStatus'' \<and> c \<noteq> ''taskUpdated'') \<longrightarrow>
      attribute (table (snd (transitionTask refusal now fault task a b w))) key c =
      attribute (table w) key c"
    by (intro allI impI transitionTask_attribute) simp
  have C: "\<forall>j c u.
         j < length (fst (getPendingTaskBatch None ?w')) \<and>
         taskId (fst (getPendingTaskBatch None ?w') ! j) = taskId task \<and>
         persistedCreated (table w) (taskId task) = Some c \<and>
         u \<in> set (pendingItems (table ?w')) \<and> created u > c \<longrightarrow>
           taskCreated (fst (getPendingTaskBatch None ?w') ! j) = c \<and>
           (\<exists>i<j. toTask u = Some (fst (getPendingTaskBatch None ?w') ! i))"
    if wf: "wellFormed (table w)"
  proof (intro allI impI, elim conjE)
    fix j c u
    assume j: "j < length (fst (getPendingTaskBatch None ?w'))"
      and k: "taskId (fst (getPendingTaskBatch None ?w') ! j) = taskId task"
      and c: "persistedCreated (table w) (taskId task) = Some c"
      and u: "u \<in> set (pendingItems (table ?w'))" and newer: "created u > c"
    from c pc have c': "persistedCreated (table ?w') (taskId task) = Some c" by simp
    show "taskCreated (fst (getPendingTaskBatch None ?w') ! j) = c \<and>
           (\<exists>i<j. toTask u = Some (fst (getPendingTaskBatch None ?w') ! i))"
      by (rule requeued_rank[OF wellFormed_transitionTask[OF wf] j k u c' newer])
  qed
  have D: "wellFormed (table w) \<and> fst (transitionTask refusal now None task ''TAKEN'' ''PENDING'' w) \<longrightarrow>
      persistedStatus (table ?w') (taskId task) = Some ''PENDING'' \<and>
      persistedCreated (table ?w') (taskId task) = persistedCreated (table w) (taskId task) \<and>
      (\<forall>j c u.
         j < length (fst (getPendingTaskBatch None ?w')) \<and>
         taskId (fst (getPendingTaskBatch None ?w') ! j) = taskId task \<and>
         persistedCreated (table w) (taskId task) = Some c \<and>
         u \<in> set (pendingItems (table ?w')) \<and> created u > c \<longrightarrow>
           taskCreated (fst (getPendingTaskBatch None ?w') ! j) = c \<and>
           (\<exists>i<j. toTask u = Some (fst (getPendingTaskBatch None ?w') ! i)))"
  proof (intro impI, elim conjE, intro conjI)
    assume wf: "wellFormed (table w)"
      and ok: "fst (transitionTask refusal now None task ''TAKEN'' ''PENDING'' w)"
    show "persistedStatus (table ?w') (taskId task) = Some ''PENDING''" by (rule ps[OF ok])
    show "persistedCreated (table ?w') (taskId task) = persistedCreated (table w) (taskId task)"
      by (rule pc)
    show "\<forall>j c u.
         j < length (fst (getPendingTaskBatch None ?w')) \<and>
         taskId (fst (getPendingTaskBatch None ?w') ! j) = taskId task \<and>
         persistedCreated (table w) (taskId task) = Some c \<and>
         u \<in> set (pendingItems (table ?w')) \<and> created u > c \<longrightarrow>
           taskCreated (fst (getPendingTaskBatch None ?w') ! j) = c \<and>
           (\<exists>i<j. toTask u = Some (fst (getPendingTaskBatch None ?w') ! i))"
      by (rule C[OF wf])
  qed
  show ?thesis
    by (rule conjI[OF A conjI[OF B D]])
qed

theorem transitionTask_frame_requeue_witness:
  "wellFormed (table sampleLeased) \<and>
   fst (transitionTask sampleRefusal 50 None (sampleTask ''a'' 1) ''TAKEN'' ''PENDING'' sampleLeased) \<and>
   map taskId (fst (getPendingTaskBatch None
      (snd (transitionTask sampleRefusal 50 None (sampleTask ''a'' 1) ''TAKEN'' ''PENDING'' sampleLeased))))
     = [''c'', ''b'', ''a''] \<and>
   persistedCreated (table
      (snd (transitionTask sampleRefusal 50 None (sampleTask ''a'' 1) ''TAKEN'' ''PENDING'' sampleLeased))) ''a''
     = Some 1 \<and>
   attribute (table
      (snd (transitionTask sampleRefusal 50 None (sampleTask ''a'' 1) ''TAKEN'' ''PENDING'' sampleLeased))) ''a'' ''ttl''
     = Some (N 3600001) \<and>
   taskCreated (fst (getPendingTaskBatch None
      (snd (transitionTask sampleRefusal 50 None (sampleTask ''a'' 1) ''TAKEN'' ''PENDING'' sampleLeased))) ! 2)
     = 1 \<and>
   (\<exists>i<2. toTask (sampleItem ''b'' ''PENDING'' 2) = Some (fst (getPendingTaskBatch None
      (snd (transitionTask sampleRefusal 50 None (sampleTask ''a'' 1) ''TAKEN'' ''PENDING'' sampleLeased))) ! i))"
proof -
  let ?T = "transitionTask sampleRefusal 50 None (sampleTask ''a'' 1) ''TAKEN'' ''PENDING'' sampleLeased"
  let ?B = "fst (getPendingTaskBatch None (snd ?T))"
  have wf: "wellFormed (table sampleLeased)"
    by (simp add: wellFormed_def sampleLeased_def sampleItem_def stringOf_def numberOf_def)
  have T: "?T = (True, sampleLeased\<lparr>table :=
        [(''a'', (sampleItem ''a'' ''TAKEN'' 1)(''taskStatus'' \<mapsto> S ''PENDING'', ''taskUpdated'' \<mapsto> N 50)),
         (''b'', sampleItem ''b'' ''PENDING'' 2), (''c'', sampleItem ''c'' ''PENDING'' 3)],
        console := [logged LOG ''TRANSITION_TASK'' (Some ''a'') (Some (''TAKEN'', ''PENDING''))]\<rparr>)"
    by (simp add: transitionTask_def send_def UpdateItemCommand_def sampleLeased_def sampleTask_def
        sampleItem_def)
  have ok: "fst ?T" by (simp add: T)
  have k: "taskId (sampleTask ''a'' 1) = ''a''" by (simp add: sampleTask_def)
  have ids: "map taskId ?B = [''c'', ''b'', ''a'']"
    unfolding T snd_conv
    by (simp add: getPendingTaskBatch_def QueryCommand_def pageLimit_def toTask_def indexed_def
        created_def sampleLeased_def sampleItem_def stringOf_def numberOf_def Let_def)
  then have len: "length ?B = 3" and at2: "taskId (?B ! 2) = ''a''"
    by (auto simp: map_eq_Cons_conv)
  have c: "persistedCreated (table sampleLeased) ''a'' = Some 1"
    by (simp add: persistedCreated_def sampleLeased_def sampleItem_def numberOf_def)
  have u: "sampleItem ''b'' ''PENDING'' 2 \<in> set (pendingItems (table (snd ?T)))"
    unfolding T snd_conv
    by (simp add: pendingItems_def indexed_def sampleLeased_def sampleItem_def stringOf_def
        numberOf_def)
  have newer: "created (sampleItem ''b'' ''PENDING'' 2) > 1"
    by (simp add: created_def sampleItem_def numberOf_def)
  have ttl: "attribute (table sampleLeased) ''a'' ''ttl'' = Some (N 3600001)"
    by (simp add: attribute_def sampleLeased_def sampleItem_def)
  note inst = transitionTask_frame_requeue
    [of sampleRefusal 50 None "sampleTask ''a'' 1" "''TAKEN''" "''PENDING''" sampleLeased]
  from inst ttl k have ttl': "attribute (table (snd ?T)) ''a'' ''ttl'' = Some (N 3600001)"
    by simp
  from inst wf ok k c have pc: "persistedCreated (table (snd ?T)) ''a'' = Some 1"
    by simp
  from inst wf ok have "\<forall>j c u.
         j < length ?B \<and> taskId (?B ! j) = taskId (sampleTask ''a'' 1) \<and>
         persistedCreated (table sampleLeased) (taskId (sampleTask ''a'' 1)) = Some c \<and>
         u \<in> set (pendingItems (table (snd ?T))) \<and> created u > c \<longrightarrow>
           taskCreated (?B ! j) = c \<and> (\<exists>i<j. toTask u = Some (?B ! i))"
    by blast
  from this[rule_format, of 2 1 "sampleItem ''b'' ''PENDING'' 2"] len at2 k c u newer
  have "taskCreated (?B ! 2) = 1 \<and> (\<exists>i<2. toTask (sampleItem ''b'' ''PENDING'' 2) = Some (?B ! i))"
    by simp
  with wf ok ids pc ttl' show ?thesis by blast
qed

section \<open>Steps of a batch\<close>

lemma transitionTask_rest [simp]:
  "runnerState (snd (transitionTask refusal now fault task a b s)) = runnerState s"
  "calls (snd (transitionTask refusal now fault task a b s)) = calls s"
  "procs (snd (transitionTask refusal now fault task a b s)) = procs s"
  "published (snd (transitionTask refusal now fault task a b s)) = published s"
  by (simp_all add: transitionTask_def split: sum.splits)

lemma transitionTask_console:
  "console (snd (transitionTask refusal now fault task a b w)) =
     console w @
     (if fst (transitionTask refusal now fault task a b w)
      then [logged LOG ''TRANSITION_TASK'' (Some (taskId task)) (Some (a, b))]
      else (if code (case fault of Some e \<Rightarrow> e | None \<Rightarrow> refusal) \<noteq> Some ''ConditionalCheckFailedException''
            then [logged ERROR ''TRANSITION_TASK_ERROR'' (Some (taskId task)) None] else []) @
           [logged LOG ''TRANSITION_TASK_FAILED'' (Some (taskId task)) (Some (a, b))])"
proof (cases fault)
  case None
  show ?thesis
  proof (cases "persistedStatus (table w) (taskId task) = Some a")
    case True
    from transitionTask_granted[OF True, of refusal now b] None show ?thesis by auto
  next
    case False
    with None show ?thesis by (simp add: transitionTask_refused)
  qed
next
  case (Some e)
  then show ?thesis by (simp add: transitionTask_fault)
qed

lemma step_Elsewhere [simp]: "step R refusal (Elsewhere tbl) s = s\<lparr>table := tbl\<rparr>"
  by (simp add: step_def)

lemma step_outside [simp]:
  "\<not> i < length (procs s) \<Longrightarrow> step R refusal (Proceed i now fault) s = s"
  by (simp add: step_def)

lemma step_Scheduled:
  "i < length (procs s) \<Longrightarrow> procs s ! i = (task, Scheduled) \<Longrightarrow>
   step R refusal (Proceed i now fault) s = processTask_lease R refusal now fault i task s"
  by (simp add: step_def)

lemma step_Running:
  "i < length (procs s) \<Longrightarrow> procs s ! i = (task, Running p) \<Longrightarrow>
   step R refusal (Proceed i now fault) s = processTask_conclude R refusal now fault i task p s"
  by (simp add: step_def)

lemma step_Settled:
  "i < length (procs s) \<Longrightarrow> procs s ! i = (task, Settled) \<Longrightarrow>
   step R refusal (Proceed i now fault) s = s"
  by (simp add: step_def)

lemma processTask_lease_fields:
  "procs (processTask_lease R refusal now fault i task s) =
     (procs s)[i := (task,
        if fst (transitionTask refusal now fault task ''PENDING'' ''TAKEN'' s)
        then Running (fst (invoke R task (runnerState s))) else Settled)]"
  "calls (processTask_lease R refusal now fault i task s) =
     calls s @ (if fst (transitionTask refusal now fault task ''PENDING'' ''TAKEN'' s) then [task] else [])"
  "runnerState (processTask_lease R refusal now fault i task s) =
     (if fst (transitionTask refusal now fault task ''PENDING'' ''TAKEN'' s)
      then snd (invoke R task (runnerState s)) else runnerState s)"
  "console (processTask_lease R refusal now fault i task s) =
     console (snd (transitionTask refusal now fault task ''PENDING'' ''TAKEN'' s))"
  "table (processTask_lease R refusal now fault i task s) =
     table (snd (transitionTask refusal now fault task ''PENDING'' ''TAKEN'' s))"
  "published (processTask_lease R refusal now fault i task s) = published s"
proof -
  obtain ok s1 where T: "transitionTask refusal now fault task ''PENDING'' ''TAKEN'' s = (ok, s1)"
    by (cases "transitionTask refusal now fault task ''PENDING'' ''TAKEN'' s")
  have rest: "runnerState s1 = runnerState s" "calls s1 = calls s" "procs s1 = procs s"
    "published s1 = published s"
    using transitionTask_rest[of refusal now fault task "''PENDING''" "''TAKEN''" s] T by simp_all
  show "procs (processTask_lease R refusal now fault i task s) =
     (procs s)[i := (task,
        if fst (transitionTask refusal now fault task ''PENDING'' ''TAKEN'' s)
        then Running (fst (invoke R task (runnerState s))) else Settled)]"
    by (cases ok) (simp_all add: processTask_lease_def T rest split: prod.splits)
  show "calls (processTask_lease R refusal now fault i task s) =
     calls s @ (if fst (transitionTask refusal now fault task ''PENDING'' ''TAKEN'' s) then [task] else [])"
    by (cases ok) (simp_all add: processTask_lease_def T rest split: prod.splits)
  show "runnerState (processTask_lease R refusal now fault i task s) =
     (if fst (transitionTask refusal now fault task ''PENDING'' ''TAKEN'' s)
      then snd (invoke R task (runnerState s)) else runnerState s)"
    by (cases ok) (simp_all add: processTask_lease_def T rest split: prod.splits)
  show "console (processTask_lease R refusal now fault i task s) =
     console (snd (transitionTask refusal now fault task ''PENDING'' ''TAKEN'' s))"
    by (cases ok) (simp_all add: processTask_lease_def T rest split: prod.splits)
  show "table (processTask_lease R refusal now fault i task s) =
     table (snd (transitionTask refusal now fault task ''PENDING'' ''TAKEN'' s))"
    by (cases ok) (simp_all add: processTask_lease_def T rest split: prod.splits)
  show "published (processTask_lease R refusal now fault i task s) = published s"
    by (cases ok) (simp_all add: processTask_lease_def T rest split: prod.splits)
qed

lemma processTask_conclude_eq:
  "processTask_conclude R refusal now fault i task p s =
     (snd (transitionTask refusal now fault task ''TAKEN'' (fst (concluding R task p s))
             (snd (concluding R task p s))))
     \<lparr>procs := (procs s)[i := (task, Settled)]\<rparr>"
proof -
  obtain result r where S: "settle R p (runnerState s) = (result, r)"
    by (cases "settle R p (runnerState s)")
  obtain toState s2 where C: "concluding R task p s = (toState, s2)"
    by (cases "concluding R task p s")
  obtain ok s3 where T: "transitionTask refusal now fault task ''TAKEN'' toState s2 = (ok, s3)"
    by (cases "transitionTask refusal now fault task ''TAKEN'' toState s2")
  from C S have p2: "procs s2 = procs s"
    by (cases result) (auto simp: concluding_def)
  from transitionTask_rest(3)[of refusal now fault task "''TAKEN''" toState s2] T p2
  have p3: "procs s3 = procs s" by simp
  from C S T p3 show ?thesis
    by (cases result) (auto simp: processTask_conclude_def concluding_def Let_def)
qed

lemma concluding_fields:
  "procs (snd (concluding R task p s)) = procs s"
  "calls (snd (concluding R task p s)) = calls s"
  "published (snd (concluding R task p s)) = published s"
  "table (snd (concluding R task p s)) = table s"
  "runnerState (snd (concluding R task p s)) = snd (settle R p (runnerState s))"
  "console (snd (concluding R task p s)) =
     console s @ (case fst (settle R p (runnerState s)) of
                    Returns v \<Rightarrow> []
                  | Throws err \<Rightarrow> [logged ERROR ''PROCESS_TASK_ERROR'' (Some (taskId task)) None])"
  "fst (concluding R task p s) =
     (case fst (settle R p (runnerState s)) of Returns v \<Rightarrow> v | Throws err \<Rightarrow> ''PENDING'')"
  by (simp_all add: concluding_def split: outcome.splits)

lemma processTask_conclude_fields:
  "procs (processTask_conclude R refusal now fault i task p s) = (procs s)[i := (task, Settled)]"
  "calls (processTask_conclude R refusal now fault i task p s) = calls s"
  "published (processTask_conclude R refusal now fault i task p s) = published s"
  "runnerState (processTask_conclude R refusal now fault i task p s) = snd (settle R p (runnerState s))"
  "console (processTask_conclude R refusal now fault i task p s) =
     console (snd (transitionTask refusal now fault task ''TAKEN'' (fst (concluding R task p s))
        (snd (concluding R task p s))))"
  "table (processTask_conclude R refusal now fault i task p s) =
     table (snd (transitionTask refusal now fault task ''TAKEN'' (fst (concluding R task p s))
        (snd (concluding R task p s))))"
  by (simp_all add: processTask_conclude_eq concluding_fields)

lemma granted_lease_lines:
  "filter granted
     (if ok then [logged LOG ''TRANSITION_TASK'' (Some k) (Some (''PENDING'', ''TAKEN''))]
      else (if c then [logged ERROR ''TRANSITION_TASK_ERROR'' (Some k) None] else []) @
           [logged LOG ''TRANSITION_TASK_FAILED'' (Some k) (Some (''PENDING'', ''TAKEN''))]) =
   (if ok then [logged LOG ''TRANSITION_TASK'' (Some k) (Some (''PENDING'', ''TAKEN''))] else [])"
  by (simp add: granted_def logged_def)

lemma granted_conclusion_lines:
  "filter granted
     (if ok then [logged LOG ''TRANSITION_TASK'' (Some k) (Some (''TAKEN'', b))]
      else (if c then [logged ERROR ''TRANSITION_TASK_ERROR'' (Some k) None] else []) @
           [logged LOG ''TRANSITION_TASK_FAILED'' (Some k) (Some (''TAKEN'', b))]) = []"
  by (simp add: granted_def logged_def)

lemma step_trace:
  "\<exists>X Y. calls (step R refusal e s) = calls s @ X \<and> console (step R refusal e s) = console s @ Y \<and>
         map (Some \<circ> taskId) X = map subject (filter granted Y)"
proof (cases e)
  case (Elsewhere tbl)
  then show ?thesis by simp
next
  case (Proceed i now fault)
  show ?thesis
  proof (cases "i < length (procs s)")
    case False
    with Proceed show ?thesis by simp
  next
    case True
    obtain task ph where ph: "procs s ! i = (task, ph)" by (cases "procs s ! i")
    show ?thesis
    proof (cases ph)
      case Scheduled
      let ?ok = "fst (transitionTask refusal now fault task ''PENDING'' ''TAKEN'' s)"
      have "calls (step R refusal e s) = calls s @ (if ?ok then [task] else [])"
        using Proceed True ph Scheduled by (simp add: step_Scheduled processTask_lease_fields)
      moreover have "console (step R refusal e s) = console s @
          (if ?ok then [logged LOG ''TRANSITION_TASK'' (Some (taskId task)) (Some (''PENDING'', ''TAKEN''))]
           else (if code (case fault of Some e \<Rightarrow> e | None \<Rightarrow> refusal) \<noteq> Some ''ConditionalCheckFailedException''
                 then [logged ERROR ''TRANSITION_TASK_ERROR'' (Some (taskId task)) None] else []) @
                [logged LOG ''TRANSITION_TASK_FAILED'' (Some (taskId task)) (Some (''PENDING'', ''TAKEN''))])"
        using Proceed True ph Scheduled
        by (simp add: step_Scheduled processTask_lease_fields transitionTask_console)
      moreover have "map (Some \<circ> taskId) (if ?ok then [task] else []) =
          map subject (filter granted
          (if ?ok then [logged LOG ''TRANSITION_TASK'' (Some (taskId task)) (Some (''PENDING'', ''TAKEN''))]
           else (if code (case fault of Some e \<Rightarrow> e | None \<Rightarrow> refusal) \<noteq> Some ''ConditionalCheckFailedException''
                 then [logged ERROR ''TRANSITION_TASK_ERROR'' (Some (taskId task)) None] else []) @
                [logged LOG ''TRANSITION_TASK_FAILED'' (Some (taskId task)) (Some (''PENDING'', ''TAKEN''))]))"
        unfolding granted_lease_lines by (simp add: logged_def)
      ultimately show ?thesis by blast
    next
      case (Running p)
      let ?c = "concluding R task p s"
      let ?T = "transitionTask refusal now fault task ''TAKEN'' (fst ?c) (snd ?c)"
      let ?Z = "(if fst ?T then [logged LOG ''TRANSITION_TASK'' (Some (taskId task)) (Some (''TAKEN'', fst ?c))]
           else (if code (case fault of Some e \<Rightarrow> e | None \<Rightarrow> refusal) \<noteq> Some ''ConditionalCheckFailedException''
                 then [logged ERROR ''TRANSITION_TASK_ERROR'' (Some (taskId task)) None] else []) @
                [logged LOG ''TRANSITION_TASK_FAILED'' (Some (taskId task)) (Some (''TAKEN'', fst ?c))])"
      let ?E = "(case fst (settle R p (runnerState s)) of
                    Returns v \<Rightarrow> []
                  | Throws err \<Rightarrow> [logged ERROR ''PROCESS_TASK_ERROR'' (Some (taskId task)) None])"
      have "calls (step R refusal e s) = calls s @ []"
        using Proceed True ph Running by (simp add: step_Running processTask_conclude_fields)
      moreover have "console (step R refusal e s) = console s @ (?E @ ?Z)"
        using Proceed True ph Running
        by (simp add: step_Running processTask_conclude_fields transitionTask_console
            concluding_fields(6))
      moreover have "filter granted ?E = []"
        by (simp add: granted_def logged_def split: outcome.splits)
      then have "map (Some \<circ> taskId) [] = map subject (filter granted (?E @ ?Z))"
        unfolding filter_append granted_conclusion_lines by simp
      ultimately show ?thesis by blast
    next
      case Settled
      with Proceed True ph show ?thesis by (simp add: step_Settled)
    qed
  qed
qed

lemma fold_step_trace:
  "\<exists>X Y. calls (fold (step R refusal) evs s) = calls s @ X \<and>
         console (fold (step R refusal) evs s) = console s @ Y \<and>
         map (Some \<circ> taskId) X = map subject (filter granted Y)"
proof (induction evs arbitrary: s)
  case Nil
  show ?case by simp
next
  case (Cons e evs)
  obtain X Y where 1: "calls (step R refusal e s) = calls s @ X"
    "console (step R refusal e s) = console s @ Y"
    "map (Some \<circ> taskId) X = map subject (filter granted Y)"
    using step_trace[of R refusal e s] by blast
  obtain X' Y' where 2: "calls (fold (step R refusal) evs (step R refusal e s)) = calls (step R refusal e s) @ X'"
    "console (fold (step R refusal) evs (step R refusal e s)) = console (step R refusal e s) @ Y'"
    "map (Some \<circ> taskId) X' = map subject (filter granted Y')"
    using Cons.IH[of "step R refusal e s"] by blast
  have "calls (fold (step R refusal) (e # evs) s) = calls s @ (X @ X')"
    and "console (fold (step R refusal) (e # evs) s) = console s @ (Y @ Y')"
    and "map (Some \<circ> taskId) (X @ X') = map subject (filter granted (Y @ Y'))"
    using 1 2 by simp_all
  then show ?case by blast
qed

text \<open>
  C3. The runner is called in one place only: in the step of a task whose timer fires,
  after \<open>transitionTask\<close> from \<open>PENDING\<close> to \<open>TAKEN\<close> has returned true for it. When
  that call returns false, the step calls no runner, leaves the runner's state alone and
  settles the promise of this task; the promises of the other tasks of the batch are
  untouched. Over any sequence of events, the tasks the runner was called with are, in
  order, the tasks of the granted-lease lines of the console.
\<close>

theorem runner_called_only_when_leased:
  "(calls (step R refusal e s) = calls s \<or>
    (\<exists>i now fault task. e = Proceed i now fault \<and> i < length (procs s) \<and>
        procs s ! i = (task, Scheduled) \<and>
        fst (transitionTask refusal now fault task ''PENDING'' ''TAKEN'' s) \<and>
        calls (step R refusal e s) = calls s @ [task])) \<and>
   (i < length (procs s) \<and> procs s ! i = (task, Scheduled) \<and>
    \<not> fst (transitionTask refusal now fault task ''PENDING'' ''TAKEN'' s) \<longrightarrow>
      calls (step R refusal (Proceed i now fault) s) = calls s \<and>
      runnerState (step R refusal (Proceed i now fault) s) = runnerState s \<and>
      procs (step R refusal (Proceed i now fault) s) = (procs s)[i := (task, Settled)]) \<and>
   map (Some \<circ> taskId) (drop (length (calls s)) (calls (fold (step R refusal) evs s))) =
     map subject (filter granted (drop (length (console s)) (console (fold (step R refusal) evs s))))"
proof -
  have 1: "calls (step R refusal e s) = calls s \<or>
    (\<exists>i now fault task. e = Proceed i now fault \<and> i < length (procs s) \<and>
        procs s ! i = (task, Scheduled) \<and>
        fst (transitionTask refusal now fault task ''PENDING'' ''TAKEN'' s) \<and>
        calls (step R refusal e s) = calls s @ [task])"
  proof (cases e)
    case (Elsewhere tbl)
    then show ?thesis by simp
  next
    case (Proceed i now fault)
    show ?thesis
    proof (cases "i < length (procs s)")
      case False
      with Proceed show ?thesis by simp
    next
      case True
      obtain task ph where ph: "procs s ! i = (task, ph)" by (cases "procs s ! i")
      show ?thesis
      proof (cases ph)
        case Scheduled
        show ?thesis
        proof (cases "fst (transitionTask refusal now fault task ''PENDING'' ''TAKEN'' s)")
          case ok: True
          then have "calls (step R refusal e s) = calls s @ [task]"
            using Proceed True ph Scheduled by (simp add: step_Scheduled processTask_lease_fields)
          with Proceed True ph Scheduled ok show ?thesis by blast
        next
          case False
          then have "calls (step R refusal e s) = calls s"
            using Proceed True ph Scheduled by (simp add: step_Scheduled processTask_lease_fields)
          then show ?thesis ..
        qed
      next
        case (Running p)
        with Proceed True ph show ?thesis by (simp add: step_Running processTask_conclude_fields)
      next
        case Settled
        with Proceed True ph show ?thesis by (simp add: step_Settled)
      qed
    qed
  qed
  have 2: "calls (step R refusal (Proceed i now fault) s) = calls s \<and>
      runnerState (step R refusal (Proceed i now fault) s) = runnerState s \<and>
      procs (step R refusal (Proceed i now fault) s) = (procs s)[i := (task, Settled)]"
    if "i < length (procs s)" and "procs s ! i = (task, Scheduled)"
      and "\<not> fst (transitionTask refusal now fault task ''PENDING'' ''TAKEN'' s)"
    using that by (simp add: step_Scheduled processTask_lease_fields)
  obtain X Y where t: "calls (fold (step R refusal) evs s) = calls s @ X"
    "console (fold (step R refusal) evs s) = console s @ Y"
    "map (Some \<circ> taskId) X = map subject (filter granted Y)"
    using fold_step_trace[of R refusal evs s] by blast
  then have 3: "map (Some \<circ> taskId) (drop (length (calls s)) (calls (fold (step R refusal) evs s))) =
     map subject (filter granted (drop (length (console s)) (console (fold (step R refusal) evs s))))"
    by simp
  from 1 2 3 show ?thesis by blast
qed

theorem runner_called_only_when_leased_witness:
  "\<not> fst (transitionTask sampleRefusal 7 None (sampleTask ''b'' 2) ''PENDING'' ''TAKEN'' sampleBatch) \<and>
   calls (step fakeTaskRunner sampleRefusal (Proceed 1 7 None) sampleBatch) = [] \<and>
   runnerState (step fakeTaskRunner sampleRefusal (Proceed 1 7 None) sampleBatch) = fakeStart \<and>
   procs (step fakeTaskRunner sampleRefusal (Proceed 1 7 None) sampleBatch) =
     [(sampleTask ''a'' 1, Scheduled), (sampleTask ''b'' 2, Settled)] \<and>
   calls (step fakeTaskRunner sampleRefusal (Proceed 0 7 None) sampleBatch) = [sampleTask ''a'' 1]"
proof -
  have n: "\<not> fst (transitionTask sampleRefusal 7 None (sampleTask ''b'' 2) ''PENDING'' ''TAKEN'' sampleBatch)"
    by (simp add: transitionTask_def send_def UpdateItemCommand_def sampleBatch_def sampleTask_def
        sampleItem_def)
  have p: "1 < length (procs sampleBatch)" "procs sampleBatch ! 1 = (sampleTask ''b'' 2, Scheduled)"
    "calls sampleBatch = []" "runnerState sampleBatch = fakeStart"
    "(procs sampleBatch)[1 := (sampleTask ''b'' 2, Settled)] =
       [(sampleTask ''a'' 1, Scheduled), (sampleTask ''b'' 2, Settled)]"
    by (simp_all add: sampleBatch_def)
  have a: "calls (step fakeTaskRunner sampleRefusal (Proceed 0 7 None) sampleBatch) = [sampleTask ''a'' 1]"
    by (simp add: step_def processTask_lease_def transitionTask_def send_def UpdateItemCommand_def
        fakeTaskRunner_def fakeTaskRunner_invoke_def fakeStart_def fakeMaxActiveTasks_def
        sampleBatch_def sampleTask_def sampleItem_def Let_def)
  from runner_called_only_when_leased
    [of fakeTaskRunner sampleRefusal "Proceed 1 7 None" sampleBatch 1 "sampleTask ''b'' 2" 7 None "[]"]
    n p a
  show ?thesis by simp
qed

lemma transitionTask_status:
  "persistedStatus (table (snd (transitionTask refusal now fault task a b w))) key =
     (if key = taskId task \<and> fst (transitionTask refusal now fault task a b w) then Some b
      else persistedStatus (table w) key)"
proof (cases "send fault (UpdateItemCommand refusal (taskId task) a b now) (table w)")
  case (Inl err)
  then show ?thesis by (simp add: transitionTask_table) (simp add: transitionTask_def)
next
  case (Inr tbl)
  then have u: "UpdateItemCommand refusal (taskId task) a b now (table w) = Inr tbl"
    by (simp add: send_def split: option.splits)
  from Inr have ok: "fst (transitionTask refusal now fault task a b w)"
    by (simp add: transitionTask_def)
  from Inr have t: "table (snd (transitionTask refusal now fault task a b w)) = tbl"
    by (simp add: transitionTask_table)
  show ?thesis
  proof (cases "key = taskId task")
    case True
    with UpdateItemCommand_Inr(1)[OF u] ok t show ?thesis by simp
  next
    case False
    with UpdateItemCommand_Inr(4)[OF u, of key] t show ?thesis
      by (simp add: persistedStatus_def)
  qed
qed

text \<open>
  C7. When the promise of the runner is rejected for a leased task, the step that handles
  it is the \<open>catch\<close> followed by the \<open>finally\<close>: it logs \<open>PROCESS_TASK_ERROR\<close>, calls
  \<open>transitionTask\<close> from \<open>TAKEN\<close> to \<open>PENDING\<close>, and resolves the promise of
  \<open>processTask\<close>. Nothing is thrown on: the other promises of the batch are as before.
  The last line of the console is that of the transition from \<open>TAKEN\<close> to \<open>PENDING\<close>;
  a task persisted as \<open>TAKEN\<close> is \<open>PENDING\<close> afterwards when the request reaches the
  table, and no task becomes \<open>FAILURE\<close>.
\<close>

theorem runner_failure_requeues:
  "i < length (procs s) \<and> procs s ! i = (task, Running p) \<and>
   fst (settle R p (runnerState s)) = Throws err \<longrightarrow>
     step R refusal (Proceed i now fault) s =
       (snd (transitionTask refusal now fault task ''TAKEN'' ''PENDING''
          (s\<lparr>runnerState := snd (settle R p (runnerState s)),
             console := console s @
               [logged ERROR ''PROCESS_TASK_ERROR'' (Some (taskId task)) None]\<rparr>)))
       \<lparr>procs := (procs s)[i := (task, Settled)]\<rparr> \<and>
     procs (step R refusal (Proceed i now fault) s) = (procs s)[i := (task, Settled)] \<and>
     move (last (console (step R refusal (Proceed i now fault) s))) = Some (''TAKEN'', ''PENDING'') \<and>
     subject (last (console (step R refusal (Proceed i now fault) s))) = Some (taskId task) \<and>
     (fault = None \<and> persistedStatus (table s) (taskId task) = Some ''TAKEN'' \<longrightarrow>
        persistedStatus (table (step R refusal (Proceed i now fault) s)) (taskId task) = Some ''PENDING'') \<and>
     (\<forall>key. persistedStatus (table (step R refusal (Proceed i now fault) s)) key = Some ''FAILURE'' \<longrightarrow>
        persistedStatus (table s) key = Some ''FAILURE'')"
proof (intro impI, elim conjE)
  assume i: "i < length (procs s)" and ph: "procs s ! i = (task, Running p)"
    and thr: "fst (settle R p (runnerState s)) = Throws err"
  let ?s2 = "s\<lparr>runnerState := snd (settle R p (runnerState s)),
             console := console s @
               [logged ERROR ''PROCESS_TASK_ERROR'' (Some (taskId task)) None]\<rparr>"
  let ?T = "transitionTask refusal now fault task ''TAKEN'' ''PENDING'' ?s2"
  let ?s' = "step R refusal (Proceed i now fault) s"
  have c: "concluding R task p s = (''PENDING'', ?s2)"
    using thr by (simp add: concluding_def)
  have 1: "?s' = (snd ?T)\<lparr>procs := (procs s)[i := (task, Settled)]\<rparr>"
    using i ph by (simp add: step_Running processTask_conclude_eq c)
  have 2: "procs ?s' = (procs s)[i := (task, Settled)]"
    by (simp add: 1)
  have con: "console ?s' = console (snd ?T)" by (simp add: 1)
  have 3: "move (last (console ?s')) = Some (''TAKEN'', ''PENDING'')"
    and 4: "subject (last (console ?s')) = Some (taskId task)"
    unfolding con transitionTask_console by (simp_all add: logged_def)
  have tab: "table ?s' = table (snd ?T)" by (simp add: 1)
  have 5: "persistedStatus (table ?s') (taskId task) = Some ''PENDING''"
    if "fault = None" and "persistedStatus (table s) (taskId task) = Some ''TAKEN''"
  proof -
    from that have "persistedStatus (table ?s2) (taskId task) = Some ''TAKEN''" by simp
    with that(1) have "fst ?T"
      using granted_transition_status transitionTask_granted[of ?s2 task "''TAKEN''" refusal now "''PENDING''"]
      by auto
    then show ?thesis unfolding tab transitionTask_status by simp
  qed
  have 6: "persistedStatus (table s) key = Some ''FAILURE''"
    if "persistedStatus (table ?s') key = Some ''FAILURE''" for key
    using that unfolding tab transitionTask_status by (simp split: if_splits)
  from 1 2 3 4 5 6 show "?s' = (snd ?T)\<lparr>procs := (procs s)[i := (task, Settled)]\<rparr> \<and>
     procs ?s' = (procs s)[i := (task, Settled)] \<and>
     move (last (console ?s')) = Some (''TAKEN'', ''PENDING'') \<and>
     subject (last (console ?s')) = Some (taskId task) \<and>
     (fault = None \<and> persistedStatus (table s) (taskId task) = Some ''TAKEN'' \<longrightarrow>
        persistedStatus (table ?s') (taskId task) = Some ''PENDING'') \<and>
     (\<forall>key. persistedStatus (table ?s') key = Some ''FAILURE'' \<longrightarrow>
        persistedStatus (table s) key = Some ''FAILURE'')"
    by blast
qed

theorem runner_failure_requeues_witness:
  "fst (settle throwingRunner () (runnerState sampleRunning)) = Throws sampleError \<and>
   procs (step throwingRunner sampleRefusal (Proceed 0 9 None) sampleRunning) =
     [(sampleTask ''a'' 1, Settled)] \<and>
   persistedStatus (table sampleRunning) ''a'' = Some ''TAKEN'' \<and>
   persistedStatus (table (step throwingRunner sampleRefusal (Proceed 0 9 None) sampleRunning)) ''a''
     = Some ''PENDING'' \<and>
   move (last (console (step throwingRunner sampleRefusal (Proceed 0 9 None) sampleRunning)))
     = Some (''TAKEN'', ''PENDING'')"
proof -
  let ?s' = "step throwingRunner sampleRefusal (Proceed 0 9 None) sampleRunning"
  have h: "0 < length (procs sampleRunning)" "procs sampleRunning ! 0 = (sampleTask ''a'' 1, Running ())"
    "fst (settle throwingRunner () (runnerState sampleRunning)) = Throws sampleError"
    by (simp_all add: sampleRunning_def throwingRunner_def)
  have u: "(procs sampleRunning)[0 := (sampleTask ''a'' 1, Settled)] = [(sampleTask ''a'' 1, Settled)]"
    by (simp add: sampleRunning_def)
  have k: "taskId (sampleTask ''a'' 1) = ''a''"
    by (simp add: sampleTask_def)
  have t: "persistedStatus (table sampleRunning) ''a'' = Some ''TAKEN''"
    by (simp add: persistedStatus_def sampleRunning_def sampleItem_def)
  note r = runner_failure_requeues
    [of 0 sampleRunning "sampleTask ''a'' 1" "()" throwingRunner sampleError sampleRefusal 9 None,
     THEN mp, OF conjI[OF h(1) conjI[OF h(2) h(3)]]]
  note r' = r[THEN conjunct2]
  from r'[THEN conjunct1] have 1: "procs ?s' = [(sampleTask ''a'' 1, Settled)]"
    by (simp only: u)
  from r'[THEN conjunct2, THEN conjunct2, THEN conjunct2, THEN conjunct1] t k
  have 2: "persistedStatus (table ?s') ''a'' = Some ''PENDING''"
    by simp
  from r'[THEN conjunct2, THEN conjunct1]
  have 3: "move (last (console ?s')) = Some (''TAKEN'', ''PENDING'')" .
  from h(3) 1 t 2 3 show ?thesis by blast
qed

section \<open>Every task of a batch is attempted and settled\<close>

lemma step_procs:
  "\<exists>ph. procs (step R refusal (Proceed i now fault) s) =
          (if i < length (procs s) then (procs s)[i := (fst (procs s ! i), ph)] else procs s) \<and>
        (i < length (procs s) \<longrightarrow> min 2 (Suc (progress (snd (procs s ! i)))) \<le> progress ph)"
proof (cases "i < length (procs s)")
  case False
  then show ?thesis by simp
next
  case True
  obtain task ph where ph: "procs s ! i = (task, ph)" by (cases "procs s ! i")
  show ?thesis
  proof (cases ph)
    case Scheduled
    with True ph show ?thesis
      by (auto simp: step_Scheduled processTask_lease_fields)
  next
    case (Running p)
    with True ph show ?thesis
      by (auto simp: step_Running processTask_conclude_fields)
  next
    case Settled
    from ph Settled have "(procs s)[i := (task, Settled)] = procs s"
      by (metis list_update_id)
    with True ph Settled
    have "procs (step R refusal (Proceed i now fault) s) = (procs s)[i := (fst (procs s ! i), Settled)]"
      by (simp add: step_Settled)
    with True ph Settled show ?thesis by auto
  qed
qed

lemma step_length [simp]: "length (procs (step R refusal e s)) = length (procs s)"
proof (cases e)
  case (Proceed i now fault)
  with step_procs[of R refusal i now fault s] show ?thesis by auto
next
  case (Elsewhere tbl)
  then show ?thesis by simp
qed

lemma step_other:
  "j \<noteq> i \<Longrightarrow> procs (step R refusal (Proceed i now fault) s) ! j = procs s ! j"
  using step_procs[of R refusal i now fault s] by auto

lemma step_task [simp]:
  "j < length (procs s) \<Longrightarrow> fst (procs (step R refusal e s) ! j) = fst (procs s ! j)"
proof (cases e)
  case (Proceed i now fault)
  assume j: "j < length (procs s)"
  obtain ph where "procs (step R refusal (Proceed i now fault) s) =
          (if i < length (procs s) then (procs s)[i := (fst (procs s ! i), ph)] else procs s)"
    using step_procs[of R refusal i now fault s] by blast
  with j Proceed show ?thesis by (cases "i = j") auto
next
  case (Elsewhere tbl)
  then show ?thesis by simp
qed

lemma step_progress:
  assumes "i < length (procs s)"
  shows "min 2 (progress (snd (procs s ! i)) + (if target e = Some i then 1 else 0))
           \<le> progress (snd (procs (step R refusal e s) ! i))"
proof (cases e)
  case (Elsewhere tbl)
  then show ?thesis by (simp add: target_def)
next
  case (Proceed k now fault)
  obtain ph where ph: "procs (step R refusal (Proceed k now fault) s) =
          (if k < length (procs s) then (procs s)[k := (fst (procs s ! k), ph)] else procs s)"
    "k < length (procs s) \<longrightarrow> min 2 (Suc (progress (snd (procs s ! k)))) \<le> progress ph"
    using step_procs[of R refusal k now fault s] by blast
  show ?thesis
  proof (cases "k = i")
    case True
    with assms ph Proceed show ?thesis by (simp add: target_def)
  next
    case False
    with assms ph Proceed show ?thesis by (simp add: target_def)
  qed
qed

lemma fold_step_length [simp]: "length (procs (fold (step R refusal) evs s)) = length (procs s)"
  by (induction evs arbitrary: s) simp_all

lemma fold_step_task [simp]:
  "j < length (procs s) \<Longrightarrow> fst (procs (fold (step R refusal) evs s) ! j) = fst (procs s ! j)"
  by (induction evs arbitrary: s) simp_all

lemma fold_step_progress:
  assumes "i < length (procs s)"
  shows "min 2 (progress (snd (procs s ! i)) + count_list (map target evs) (Some i))
           \<le> progress (snd (procs (fold (step R refusal) evs s) ! i))"
  using assms
proof (induction evs arbitrary: s)
  case Nil
  then show ?case by simp
next
  case (Cons e evs)
  from Cons.prems have i: "i < length (procs (step R refusal e s))" by simp
  from Cons.IH[OF i] step_progress[OF Cons.prems, of e R refusal]
  show ?case by (auto simp: min_def split: if_splits)
qed

lemma is_Settled_progress: "is_Settled ph \<longleftrightarrow> 2 \<le> progress ph"
  by (cases ph) simp_all

lemma allSettled_iff:
  "allSettled s \<longleftrightarrow> (\<forall>i<length (procs s). 2 \<le> progress (snd (procs s ! i)))"
  by (simp add: allSettled_def list_all_length is_Settled_progress case_prod_unfold)

lemma lease_attempt:
  assumes "i < length (procs s)" and "procs s ! i = (task, Scheduled)"
  shows "\<exists>Z. console (step R refusal (Proceed i now fault) s) = console s @ Z \<and>
             list_ex (attempted task) Z"
proof -
  let ?Z = "(if fst (transitionTask refusal now fault task ''PENDING'' ''TAKEN'' s)
      then [logged LOG ''TRANSITION_TASK'' (Some (taskId task)) (Some (''PENDING'', ''TAKEN''))]
      else (if code (case fault of Some e \<Rightarrow> e | None \<Rightarrow> refusal) \<noteq> Some ''ConditionalCheckFailedException''
            then [logged ERROR ''TRANSITION_TASK_ERROR'' (Some (taskId task)) None] else []) @
           [logged LOG ''TRANSITION_TASK_FAILED'' (Some (taskId task)) (Some (''PENDING'', ''TAKEN''))])"
  have "console (step R refusal (Proceed i now fault) s) = console s @ ?Z"
    using assms by (simp add: step_Scheduled processTask_lease_fields transitionTask_console)
  moreover have "list_ex (attempted task) ?Z"
    by (simp add: attempted_def logged_def)
  ultimately show ?thesis by blast
qed

lemma step_attempts:
  assumes c: "console s = base @ Y"
    and a: "\<forall>j<length (procs s). \<not> is_Scheduled (snd (procs s ! j)) \<longrightarrow>
              list_ex (attempted (fst (procs s ! j))) Y"
  shows "\<exists>Y'. console (step R refusal e s) = base @ Y' \<and>
           (\<forall>j<length (procs s). \<not> is_Scheduled (snd (procs (step R refusal e s) ! j)) \<longrightarrow>
              list_ex (attempted (fst (procs s ! j))) Y')"
proof -
  obtain Z where Z: "console (step R refusal e s) = console s @ Z"
    using step_trace[of R refusal e s] by blast
  have "list_ex (attempted (fst (procs s ! j))) (Y @ Z)"
    if j: "j < length (procs s)" and n: "\<not> is_Scheduled (snd (procs (step R refusal e s) ! j))" for j
  proof (cases "is_Scheduled (snd (procs s ! j))")
    case False
    with a j show ?thesis by (auto simp: list_ex_iff)
  next
    case True
    then obtain task where ph: "procs s ! j = (task, Scheduled)"
      by (cases "procs s ! j"; cases "snd (procs s ! j)") auto
    show ?thesis
    proof (cases e)
      case (Elsewhere tbl)
      with n True show ?thesis by simp
    next
      case (Proceed i now fault)
      show ?thesis
      proof (cases "i = j")
        case False
        with Proceed n True step_other[of j i R refusal now fault s] show ?thesis by simp
      next
        case same: True
        obtain Z' where "console (step R refusal (Proceed i now fault) s) = console s @ Z'"
          "list_ex (attempted task) Z'"
          using lease_attempt[OF j[folded same] ph[folded same], of R refusal now fault] by blast
        with Z Proceed ph show ?thesis by (auto simp: list_ex_iff)
      qed
    qed
  qed
  with Z c show ?thesis by auto
qed

lemma fold_step_attempts:
  assumes "console s = base @ Y"
    and "\<forall>j<length (procs s). \<not> is_Scheduled (snd (procs s ! j)) \<longrightarrow>
              list_ex (attempted (fst (procs s ! j))) Y"
  shows "\<exists>Y'. console (fold (step R refusal) evs s) = base @ Y' \<and>
           (\<forall>j<length (procs s). \<not> is_Scheduled (snd (procs (fold (step R refusal) evs s) ! j)) \<longrightarrow>
              list_ex (attempted (fst (procs s ! j))) Y')"
  using assms
proof (induction evs arbitrary: s Y)
  case Nil
  then show ?case by simp
next
  case (Cons e evs)
  obtain Y1 where 1: "console (step R refusal e s) = base @ Y1"
    "\<forall>j<length (procs s). \<not> is_Scheduled (snd (procs (step R refusal e s) ! j)) \<longrightarrow>
              list_ex (attempted (fst (procs s ! j))) Y1"
    using step_attempts[OF Cons.prems, of R refusal e] by blast
  from 1(2) have "\<forall>j<length (procs (step R refusal e s)).
      \<not> is_Scheduled (snd (procs (step R refusal e s) ! j)) \<longrightarrow>
      list_ex (attempted (fst (procs (step R refusal e s) ! j))) Y1"
    by simp
  from Cons.IH[OF 1(1) this] show ?case by simp
qed

lemma sampleIdle_batch:
  "fst (getPendingTaskBatch None sampleIdle) = [sampleTask ''b'' 2, sampleTask ''a'' 1]"
  by (simp add: getPendingTaskBatch_def QueryCommand_def pageLimit_def toTask_def indexed_def
      created_def sampleIdle_def sampleItem_def sampleTask_def stringOf_def numberOf_def Let_def)

text \<open>
  C8. A step for one task of a batch changes the promise of that task only, whatever
  happens in it: a refused lease, a failed request, a runner that throws. So once the
  timer of every task has fired and every runner promise has settled, which is the case
  when each position of the batch occurs twice among the events, every promise of the
  batch is settled and the console holds a lease attempt for every task. The loop goes
  on to \<open>waitAndContinue\<close> only from a batch of which every promise is settled.
\<close>

theorem batch_settles_every_task:
  "(j \<noteq> i \<longrightarrow> procs (step R refusal (Proceed i now fault) s) ! j = procs s ! j) \<and>
   ((\<forall>k<length tasks. 2 \<le> count_list (map target evs) (Some k)) \<longrightarrow>
      allSettled (fold (step R refusal) evs (processTaskBatch tasks s)) \<and>
      (\<forall>k<length tasks. list_ex (attempted (tasks ! k))
          (drop (length (console s)) (console (fold (step R refusal) evs (processTaskBatch tasks s)))))) \<and>
   (getAndProcessTasksOrResolve R refusal topicArn env reached s = WaitAndContinue s2 \<longrightarrow>
      allSettled s2 \<and>
      s2 = fold (step R refusal) (events env)
             (processTaskBatch (fst (getPendingTaskBatch (queryFault env) s))
                (snd (getPendingTaskBatch (queryFault env) s))))"
proof -
  let ?s0 = "processTaskBatch tasks s"
  let ?s' = "fold (step R refusal) evs ?s0"
  have p0: "procs ?s0 = map (\<lambda>task. (task, Scheduled)) tasks"
    and c0: "console ?s0 = console s @ [logged LOG ''PROCESS_TASK_BATCH'' None None]"
    by (simp_all add: processTaskBatch_def)
  have 1: "procs (step R refusal (Proceed i now fault) s) ! j = procs s ! j" if "j \<noteq> i"
    using that by (rule step_other)
  have 2: "allSettled ?s'" if h: "\<forall>k<length tasks. 2 \<le> count_list (map target evs) (Some k)"
  proof -
    have "2 \<le> progress (snd (procs ?s' ! k))" if k: "k < length (procs ?s')" for k
    proof -
      from k have k0: "k < length (procs ?s0)" by simp
      with h have "2 \<le> count_list (map target evs) (Some k)" by (simp add: p0)
      with fold_step_progress[OF k0, of evs R refusal] show ?thesis by simp
    qed
    then show ?thesis by (simp add: allSettled_iff)
  qed
  have 3: "list_ex (attempted (tasks ! k)) (drop (length (console s)) (console ?s'))"
    if h: "\<forall>k<length tasks. 2 \<le> count_list (map target evs) (Some k)" and k: "k < length tasks" for k
  proof -
    have "\<forall>j<length (procs ?s0). \<not> is_Scheduled (snd (procs ?s0 ! j)) \<longrightarrow>
              list_ex (attempted (fst (procs ?s0 ! j))) [logged LOG ''PROCESS_TASK_BATCH'' None None]"
      by (simp add: p0)
    from fold_step_attempts[OF c0 this, of R refusal evs]
    obtain Y' where Y': "console ?s' = console s @ Y'"
      "\<forall>j<length (procs ?s0). \<not> is_Scheduled (snd (procs ?s' ! j)) \<longrightarrow>
              list_ex (attempted (fst (procs ?s0 ! j))) Y'"
      by blast
    from k have k0: "k < length (procs ?s0)" by (simp add: p0)
    from h k have "2 \<le> count_list (map target evs) (Some k)" by blast
    with fold_step_progress[OF k0, of evs R refusal]
    have "2 \<le> progress (snd (procs ?s' ! k))" by simp
    then have "\<not> is_Scheduled (snd (procs ?s' ! k))"
      by (cases "snd (procs ?s' ! k)") simp_all
    with Y'(2) k0 k have "list_ex (attempted (tasks ! k)) Y'" by (simp add: p0)
    with Y'(1) show ?thesis by simp
  qed
  have 4: "allSettled s2 \<and>
      s2 = fold (step R refusal) (events env)
             (processTaskBatch (fst (getPendingTaskBatch (queryFault env) s))
                (snd (getPendingTaskBatch (queryFault env) s)))"
    if "getAndProcessTasksOrResolve R refusal topicArn env reached s = WaitAndContinue s2"
    using that
    by (auto simp: getAndProcessTasksOrResolve_def Let_def split: prod.splits if_splits)
  from 1 2 3 4 show ?thesis by blast
qed

theorem batch_settles_every_task_witness:
  "count_list (map target (events sampleTurn)) (Some 0) = 2 \<and>
   count_list (map target (events sampleTurn)) (Some 1) = 2 \<and>
   getAndProcessTasksOrResolve throwingRunner sampleRefusal ''topic'' sampleTurn False sampleIdle =
     WaitAndContinue
       (fold (step throwingRunner sampleRefusal) (events sampleTurn)
          (processTaskBatch [sampleTask ''b'' 2, sampleTask ''a'' 1]
             (snd (getPendingTaskBatch None sampleIdle)))) \<and>
   allSettled
     (fold (step throwingRunner sampleRefusal) (events sampleTurn)
        (processTaskBatch [sampleTask ''b'' 2, sampleTask ''a'' 1]
           (snd (getPendingTaskBatch None sampleIdle)))) \<and>
   list_ex (attempted (sampleTask ''a'' 1))
     (drop (length (console (snd (getPendingTaskBatch None sampleIdle))))
        (console (fold (step throwingRunner sampleRefusal) (events sampleTurn)
           (processTaskBatch [sampleTask ''b'' 2, sampleTask ''a'' 1]
              (snd (getPendingTaskBatch None sampleIdle)))))) \<and>
   procs (step throwingRunner sampleRefusal (Proceed 0 10 None)
            (processTaskBatch [sampleTask ''b'' 2, sampleTask ''a'' 1] sampleIdle)) ! 1 =
     (sampleTask ''a'' 1, Scheduled)"
proof -
  let ?tasks = "[sampleTask ''b'' 2, sampleTask ''a'' 1]"
  let ?s1 = "snd (getPendingTaskBatch None sampleIdle)"
  let ?s2 = "fold (step throwingRunner sampleRefusal) (events sampleTurn) (processTaskBatch ?tasks ?s1)"
  have c: "count_list (map target (events sampleTurn)) (Some 0) = 2"
    "count_list (map target (events sampleTurn)) (Some 1) = 2"
    by (simp_all add: sampleTurn_def target_def)
  have h: "\<forall>k<length ?tasks. 2 \<le> count_list (map target (events sampleTurn)) (Some k)"
    using c by (simp add: less_Suc_eq)
  note inst = batch_settles_every_task
    [of 1 0 throwingRunner sampleRefusal 10 None "processTaskBatch ?tasks sampleIdle" ?tasks
        "events sampleTurn" "''topic''" sampleTurn False ?s2]
  note inst2 = batch_settles_every_task
    [of 1 0 throwingRunner sampleRefusal 10 None ?s1 ?tasks
        "events sampleTurn" "''topic''" sampleTurn False ?s2,
     THEN conjunct2, THEN conjunct1, THEN mp, OF h]
  from inst2 have settled: "allSettled ?s2" by (rule conjunct1)
  from inst2[THEN conjunct2, THEN spec, of 1]
  have "list_ex (attempted (?tasks ! 1)) (drop (length (console ?s1)) (console ?s2))"
    by simp
  then have att: "list_ex (attempted (sampleTask ''a'' 1)) (drop (length (console ?s1)) (console ?s2))"
    by simp
  have q: "queryFault sampleTurn = None" by (simp add: sampleTurn_def)
  have g: "getAndProcessTasksOrResolve throwingRunner sampleRefusal ''topic'' sampleTurn False sampleIdle
      = WaitAndContinue ?s2"
    using settled
    by (simp add: getAndProcessTasksOrResolve_def case_prod_unfold q sampleIdle_batch Let_def)
  have "procs (processTaskBatch ?tasks sampleIdle) ! 1 = (sampleTask ''a'' 1, Scheduled)"
    by (simp add: processTaskBatch_def)
  with inst[THEN conjunct1]
  have other: "procs (step throwingRunner sampleRefusal (Proceed 0 10 None)
            (processTaskBatch ?tasks sampleIdle)) ! 1 = (sampleTask ''a'' 1, Scheduled)"
    by simp
  from c g settled att other show ?thesis by blast
qed

section \<open>The demonstration runner\<close>

lemma fake_invoke:
  "fst (fakeTaskRunner_invoke task st) =
     (if 3 \<le> activeTaskCount st then Resolved ''PENDING'' else Timer task)"
  "activeTaskCount (snd (fakeTaskRunner_invoke task st)) =
     (if 3 \<le> activeTaskCount st then activeTaskCount st else activeTaskCount st + 1)"
  by (simp_all add: fakeTaskRunner_invoke_def fakeMaxActiveTasks_def Let_def)

lemma fake_settle:
  "fst (fakeTaskRunner_settle p st) = Returns (case p of Resolved v \<Rightarrow> v | Timer task \<Rightarrow> ''SUCCESS'')"
  "activeTaskCount (snd (fakeTaskRunner_settle p st)) =
     (case p of Resolved v \<Rightarrow> activeTaskCount st | Timer task \<Rightarrow> activeTaskCount st - 1)"
  by (simp_all add: fakeTaskRunner_settle_def split: fakePromise.splits)

lemma fake_runner [simp]:
  "invoke fakeTaskRunner = fakeTaskRunner_invoke" "settle fakeTaskRunner = fakeTaskRunner_settle"
  by (simp_all add: fakeTaskRunner_def)

lemma fake_step_count:
  assumes "activeTaskCount (runnerState s) \<le> 3"
  shows "activeTaskCount (runnerState (step fakeTaskRunner refusal e s)) \<le> 3"
proof (cases e)
  case (Elsewhere tbl)
  with assms show ?thesis by simp
next
  case (Proceed i now fault)
  show ?thesis
  proof (cases "i < length (procs s)")
    case False
    with Proceed assms show ?thesis by simp
  next
    case True
    obtain task ph where ph: "procs s ! i = (task, ph)" by (cases "procs s ! i")
    show ?thesis
    proof (cases ph)
      case Scheduled
      with Proceed True ph assms show ?thesis
        by (simp add: step_Scheduled processTask_lease_fields fake_invoke)
    next
      case (Running p)
      with Proceed True ph assms show ?thesis
        by (simp add: step_Running processTask_conclude_fields fake_settle split: fakePromise.splits)
    next
      case Settled
      with Proceed True ph assms show ?thesis by (simp add: step_Settled)
    qed
  qed
qed

lemma fake_fold_count:
  "activeTaskCount (runnerState s) \<le> 3 \<Longrightarrow>
   activeTaskCount (runnerState (fold (step fakeTaskRunner refusal) evs s)) \<le> 3"
  by (induction evs arbitrary: s) (simp_all add: fake_step_count)

lemma no_failure_lines:
  "b \<noteq> ''FAILURE'' \<Longrightarrow>
   \<not> list_ex (movesTo ''FAILURE'')
     (if ok then [logged LOG ''TRANSITION_TASK'' (Some k) (Some (a, b))]
      else (if c then [logged ERROR ''TRANSITION_TASK_ERROR'' (Some k) None] else []) @
           [logged LOG ''TRANSITION_TASK_FAILED'' (Some k) (Some (a, b))])"
  by (simp add: movesTo_def logged_def)

lemma fake_step_lines:
  assumes "list_all (\<lambda>(task, ph). benign ph) (procs s)"
  shows "list_all (\<lambda>(task, ph). benign ph) (procs (step fakeTaskRunner refusal e s)) \<and>
         (\<exists>Z. console (step fakeTaskRunner refusal e s) = console s @ Z \<and>
              \<not> list_ex (movesTo ''FAILURE'') Z)"
proof (cases e)
  case (Elsewhere tbl)
  with assms show ?thesis by simp
next
  case (Proceed i now fault)
  show ?thesis
  proof (cases "i < length (procs s)")
    case False
    with Proceed assms show ?thesis by simp
  next
    case True
    obtain task ph where ph: "procs s ! i = (task, ph)" by (cases "procs s ! i")
    have upd: "list_all (\<lambda>(task, ph). benign ph) ((procs s)[i := (task, ph')])" if "benign ph'" for ph'
      using assms that True by (auto simp: list_all_iff dest!: subsetD[OF set_update_subset_insert])
    show ?thesis
    proof (cases ph)
      case Scheduled
      have "benign (if fst (transitionTask refusal now fault task ''PENDING'' ''TAKEN'' s)
          then Running (fst (fakeTaskRunner_invoke task (runnerState s))) else Settled)"
        by (simp add: benign_def fake_invoke)
      from upd[OF this] have 1: "list_all (\<lambda>(task, ph). benign ph) (procs (step fakeTaskRunner refusal e s))"
        using Proceed True ph Scheduled
        by (auto simp: step_Scheduled processTask_lease_fields split: if_splits)
      have 2: "\<exists>Z. console (step fakeTaskRunner refusal e s) = console s @ Z \<and>
              \<not> list_ex (movesTo ''FAILURE'') Z"
        using Proceed True ph Scheduled no_failure_lines[of "''TAKEN''"]
        by (simp add: step_Scheduled processTask_lease_fields transitionTask_console)
      from 1 2 show ?thesis ..
    next
      case (Running p)
      from assms True ph Running have bp: "benign (Running p)"
        by (auto simp: list_all_length split: prod.splits)
      let ?c = "concluding fakeTaskRunner task p s"
      have to: "fst ?c \<noteq> ''FAILURE''"
        using bp by (simp add: concluding_fields fake_settle benign_def split: fakePromise.splits)
      have "benign (Settled :: fakePromise phase)" by (simp add: benign_def)
      from upd[OF this] have 1: "list_all (\<lambda>(task, ph). benign ph) (procs (step fakeTaskRunner refusal e s))"
        using Proceed True ph Running by (simp add: step_Running processTask_conclude_fields)
      have "console (step fakeTaskRunner refusal e s) = console s @
          (if fst (transitionTask refusal now fault task ''TAKEN'' (fst ?c) (snd ?c))
           then [logged LOG ''TRANSITION_TASK'' (Some (taskId task)) (Some (''TAKEN'', fst ?c))]
           else (if code (case fault of Some e \<Rightarrow> e | None \<Rightarrow> refusal) \<noteq> Some ''ConditionalCheckFailedException''
                 then [logged ERROR ''TRANSITION_TASK_ERROR'' (Some (taskId task)) None] else []) @
                [logged LOG ''TRANSITION_TASK_FAILED'' (Some (taskId task)) (Some (''TAKEN'', fst ?c))])"
        using Proceed True ph Running
        by (simp add: step_Running processTask_conclude_fields transitionTask_console
            concluding_fields(6) fake_settle)
      with no_failure_lines[OF to] have 2: "\<exists>Z. console (step fakeTaskRunner refusal e s) = console s @ Z \<and>
              \<not> list_ex (movesTo ''FAILURE'') Z"
        by blast
      from 1 2 show ?thesis ..
    next
      case Settled
      with Proceed True ph assms show ?thesis by (simp add: step_Settled)
    qed
  qed
qed

lemma fake_fold_lines:
  assumes "list_all (\<lambda>(task, ph). benign ph) (procs s)"
  shows "\<exists>Z. console (fold (step fakeTaskRunner refusal) evs s) = console s @ Z \<and>
              \<not> list_ex (movesTo ''FAILURE'') Z"
  using assms
proof (induction evs arbitrary: s)
  case Nil
  then show ?case by simp
next
  case (Cons e evs)
  from fake_step_lines[OF Cons.prems, of refusal e]
  obtain Z where 1: "list_all (\<lambda>(task, ph). benign ph) (procs (step fakeTaskRunner refusal e s))"
    "console (step fakeTaskRunner refusal e s) = console s @ Z" "\<not> list_ex (movesTo ''FAILURE'') Z"
    by blast
  from Cons.IH[OF 1(1)] obtain Z' where
    2: "console (fold (step fakeTaskRunner refusal) evs (step fakeTaskRunner refusal e s)) =
        console (step fakeTaskRunner refusal e s) @ Z'" "\<not> list_ex (movesTo ''FAILURE'') Z'"
    by blast
  from 1 2 have "console (fold (step fakeTaskRunner refusal) (e # evs) s) = console s @ (Z @ Z')"
    and "\<not> list_ex (movesTo ''FAILURE'') (Z @ Z')"
    by simp_all
  then show ?case by blast
qed

text \<open>
  C10. \<open>fakeTaskRunner\<close> returns a promise already resolved with \<open>PENDING\<close> exactly when
  \<open>activeTaskCount\<close> is at least \<open>fakeMaxActiveTasks\<close>, that is 3, at the call;
  otherwise it counts the task in and its promise resolves with \<open>SUCCESS\<close> when the timer
  fires. Its result is never \<open>FAILURE\<close> and it never throws. In any run of a batch with
  this runner the count stays at most 3 when it started so, and no transition to
  \<open>FAILURE\<close> is attempted.
\<close>

theorem fakeTaskRunner_admits_three:
  "(fst (fakeTaskRunner_invoke task st) = Resolved ''PENDING'' \<longleftrightarrow>
      fakeMaxActiveTasks \<le> activeTaskCount st) \<and>
   fakeMaxActiveTasks = 3 \<and>
   fst (fakeTaskRunner_settle (fst (fakeTaskRunner_invoke task st)) st') =
     Returns (if 3 \<le> activeTaskCount st then ''PENDING'' else ''SUCCESS'') \<and>
   activeTaskCount (snd (fakeTaskRunner_invoke task st)) =
     (if 3 \<le> activeTaskCount st then activeTaskCount st else activeTaskCount st + 1) \<and>
   (activeTaskCount (runnerState s) \<le> 3 \<longrightarrow>
      activeTaskCount (runnerState
        (fold (step fakeTaskRunner refusal) evs (processTaskBatch tasks s))) \<le> 3) \<and>
   \<not> list_ex (movesTo ''FAILURE'')
       (drop (length (console s))
          (console (fold (step fakeTaskRunner refusal) evs (processTaskBatch tasks s))))"
proof -
  let ?s0 = "processTaskBatch tasks s :: (fakePromise, fakeState) activation"
  have 1: "fst (fakeTaskRunner_invoke task st) = Resolved ''PENDING'' \<longleftrightarrow>
      fakeMaxActiveTasks \<le> activeTaskCount st"
    by (simp add: fake_invoke fakeMaxActiveTasks_def)
  have 2: "fakeMaxActiveTasks = 3" by (simp add: fakeMaxActiveTasks_def)
  have 3: "fst (fakeTaskRunner_settle (fst (fakeTaskRunner_invoke task st)) st') =
     Returns (if 3 \<le> activeTaskCount st then ''PENDING'' else ''SUCCESS'')"
    by (simp add: fake_invoke fake_settle)
  have 4: "activeTaskCount (runnerState (fold (step fakeTaskRunner refusal) evs ?s0)) \<le> 3"
    if "activeTaskCount (runnerState s) \<le> 3"
    using that by (intro fake_fold_count) (simp add: processTaskBatch_def)
  have "list_all (\<lambda>(task, ph). benign ph) (procs ?s0)"
    by (simp add: processTaskBatch_def list_all_iff benign_def)
  from fake_fold_lines[OF this, of refusal evs]
  obtain Z where Z: "console (fold (step fakeTaskRunner refusal) evs ?s0) = console ?s0 @ Z"
    "\<not> list_ex (movesTo ''FAILURE'') Z"
    by blast
  then have 5: "\<not> list_ex (movesTo ''FAILURE'')
       (drop (length (console s)) (console (fold (step fakeTaskRunner refusal) evs ?s0)))"
    by (simp add: processTaskBatch_def movesTo_def logged_def)
  from 1 2 3 fake_invoke(2) 4 5 show ?thesis by blast
qed

theorem fakeTaskRunner_admits_three_witness:
  "activeTaskCount (runnerState sampleBatch) \<le> 3 \<and>
   activeTaskCount (runnerState
     (fold (step fakeTaskRunner sampleRefusal) [Proceed 0 7 None, Proceed 0 8 None]
        (processTaskBatch [sampleTask ''a'' 1] sampleBatch))) \<le> 3 \<and>
   fst (fakeTaskRunner_invoke (sampleTask ''a'' 1) (fakeStart\<lparr>activeTaskCount := 3\<rparr>))
     = Resolved ''PENDING'' \<and>
   fst (fakeTaskRunner_settle (fst (fakeTaskRunner_invoke (sampleTask ''a'' 1) fakeStart)) fakeStart)
     = Returns ''SUCCESS''"
proof -
  have c: "activeTaskCount (runnerState sampleBatch) \<le> 3"
    by (simp add: sampleBatch_def fakeStart_def)
  have z: "\<not> 3 \<le> activeTaskCount fakeStart" "3 \<le> activeTaskCount (fakeStart\<lparr>activeTaskCount := 3\<rparr>)"
    by (simp_all add: fakeStart_def)
  note inst = fakeTaskRunner_admits_three
    [of "sampleTask ''a'' 1" "fakeStart\<lparr>activeTaskCount := 3\<rparr>" fakeStart sampleBatch sampleRefusal
        "[Proceed 0 7 None, Proceed 0 8 None]" "[sampleTask ''a'' 1]"]
  from inst[THEN conjunct2, THEN conjunct2, THEN conjunct2, THEN conjunct2, THEN conjunct1, THEN mp, OF c]
  have 1: "activeTaskCount (runnerState
     (fold (step fakeTaskRunner sampleRefusal) [Proceed 0 7 None, Proceed 0 8 None]
        (processTaskBatch [sampleTask ''a'' 1] sampleBatch))) \<le> 3" .
  from inst[THEN conjunct1] z(2)
  have 2: "fst (fakeTaskRunner_invoke (sampleTask ''a'' 1) (fakeStart\<lparr>activeTaskCount := 3\<rparr>))
     = Resolved ''PENDING''"
    by (simp add: fakeMaxActiveTasks_def)
  from fakeTaskRunner_admits_three
    [of "sampleTask ''a'' 1" fakeStart fakeStart sampleBatch sampleRefusal "[]" "[]",
     THEN conjunct2, THEN conjunct2, THEN conjunct1] z(1)
  have 3: "fst (fakeTaskRunner_settle (fst (fakeTaskRunner_invoke (sampleTask ''a'' 1) fakeStart)) fakeStart)
     = Returns ''SUCCESS''"
    by simp
  from c 1 2 3 show ?thesis by blast
qed

section \<open>The hand-off\<close>

lemma getPendingTaskBatch_published [simp]:
  "published (snd (getPendingTaskBatch fault s)) = published s"
  by (simp add: getPendingTaskBatch_def Let_def split: option.splits)

lemma step_published [simp]: "published (step R refusal e s) = published s"
proof (cases e)
  case (Elsewhere tbl)
  then show ?thesis by simp
next
  case (Proceed i now fault)
  show ?thesis
  proof (cases "i < length (procs s)")
    case False
    with Proceed show ?thesis by simp
  next
    case True
    obtain task ph where ph: "procs s ! i = (task, ph)" by (cases "procs s ! i")
    with Proceed True show ?thesis
      by (cases ph)
        (simp_all add: step_Scheduled step_Running step_Settled processTask_lease_fields
          processTask_conclude_fields)
  qed
qed

lemma fold_step_published [simp]: "published (fold (step R refusal) evs s) = published s"
  by (induction evs arbitrary: s) simp_all











end
